theory Spec2Isabelle
  imports Main "HOL-Library.Word"
begin

unbundle bit_operations_syntax

type_synonym u8 = "8 word"
type_synonym u16 = "16 word"
type_synonym u32 = "32 word"
type_synonym u64 = "64 word"

section \<open>Byte memory\<close>

text \<open>
  Memory is a function from 64-bit addresses to bytes; address arithmetic wraps around.
  \<open>mem_write\<close> stores a list of bytes from an address on (\<open>memset\<close>, \<open>memcpy\<close>
  and the stores of multi-byte values), \<open>mem_read\<close> reads a range.  Multi-byte values
  are little-endian, as on x86_64.
\<close>

fun mem_write :: "(u64 \<Rightarrow> u8) \<Rightarrow> u64 \<Rightarrow> u8 list \<Rightarrow> (u64 \<Rightarrow> u8)" where
  "mem_write m a [] = m"
| "mem_write m a (b # bs) = mem_write (m(a := b)) (a + 1) bs"

definition mem_read :: "(u64 \<Rightarrow> u8) \<Rightarrow> u64 \<Rightarrow> nat \<Rightarrow> u8 list" where
  "mem_read m a n = map (\<lambda>i. m (a + of_nat i)) [0 ..< n]"

definition le_bytes :: "nat \<Rightarrow> 'a::len word \<Rightarrow> u8 list" where
  "le_bytes n v = map (\<lambda>i. ucast (drop_bit (8 * i) v)) [0 ..< n]"

fun le_word :: "u8 list \<Rightarrow> 'a::len word" where
  "le_word [] = 0"
| "le_word (b # bs) = ucast b OR push_bit 8 (le_word bs)"

definition load64 :: "(u64 \<Rightarrow> u8) \<Rightarrow> u64 \<Rightarrow> u64" where
  "load64 m a = le_word (mem_read m a 8)"

definition store64 :: "(u64 \<Rightarrow> u8) \<Rightarrow> u64 \<Rightarrow> u64 \<Rightarrow> (u64 \<Rightarrow> u8)" where
  "store64 m a v = mem_write m a (le_bytes 8 v)"

definition load32 :: "(u64 \<Rightarrow> u8) \<Rightarrow> u64 \<Rightarrow> u32" where
  "load32 m a = le_word (mem_read m a 4)"

definition store32 :: "(u64 \<Rightarrow> u8) \<Rightarrow> u64 \<Rightarrow> u32 \<Rightarrow> (u64 \<Rightarrow> u8)" where
  "store32 m a v = mem_write m a (le_bytes 4 v)"

section \<open>Physical memory manager (pmm.c)\<close>

text \<open>
  The frame allocator keeps a bitmap of \<open>PMM_BITMAP_SIZE\<close> bytes, one bit per 4 KiB
  frame of the window that starts at \<open>PMM_START_ADDR\<close>, and a counter of free frames.
  \<open>size_t\<close> is \<open>uint64_t\<close> (types.h); the counter, the request size and the addresses
  are 64-bit words.  Frame numbers and loop counters never exceed \<open>PMM_TOTAL_PAGES\<close>
  and are natural numbers.
\<close>

definition PMM_PAGE_SIZE :: u64 where
  "PMM_PAGE_SIZE = 4096"

definition PMM_START_ADDR :: u64 where
  "PMM_START_ADDR = 0x200000"

definition PMM_MEMORY_SIZE :: u64 where
  "PMM_MEMORY_SIZE = 14 * 1024 * 1024"

definition PMM_TOTAL_PAGES :: nat where
  "PMM_TOTAL_PAGES = unat (PMM_MEMORY_SIZE div PMM_PAGE_SIZE)"

definition PMM_BITMAP_SIZE :: nat where
  "PMM_BITMAP_SIZE = PMM_TOTAL_PAGES div 8"

record pmm_state =
  pmm_bitmap :: "u8 list"
  pmm_free_count :: u64
  pmm_total_pages :: u64

text \<open>\<open>pmm_bitmap[page / 8] |= (1 << (page % 8))\<close>\<close>

definition pmm_set_bit :: "nat \<Rightarrow> u8 list \<Rightarrow> u8 list" where
  "pmm_set_bit page bm = bm[page div 8 := (bm ! (page div 8)) OR push_bit (page mod 8) 1]"

text \<open>\<open>pmm_bitmap[page / 8] &= ~(1 << (page % 8))\<close>\<close>

definition pmm_clear_bit :: "nat \<Rightarrow> u8 list \<Rightarrow> u8 list" where
  "pmm_clear_bit page bm = bm[page div 8 := (bm ! (page div 8)) AND NOT (push_bit (page mod 8) 1)]"

text \<open>\<open>pmm_bitmap[page / 8] & (1 << (page % 8))\<close>, read as a truth value.\<close>

definition pmm_test_bit :: "u8 list \<Rightarrow> nat \<Rightarrow> bool" where
  "pmm_test_bit bm page \<longleftrightarrow> (bm ! (page div 8)) AND push_bit (page mod 8) 1 \<noteq> 0"

definition pmm_init :: pmm_state where
  "pmm_init = \<lparr> pmm_bitmap = replicate PMM_BITMAP_SIZE 0,
                pmm_free_count = of_nat PMM_TOTAL_PAGES,
                pmm_total_pages = of_nat PMM_TOTAL_PAGES \<rparr>"

text \<open>The scan of \<open>pmm_alloc_page\<close>: the first frame whose bit is clear, from \<open>i\<close> on.\<close>

function pmm_first_free :: "u8 list \<Rightarrow> nat \<Rightarrow> nat option" where
  "pmm_first_free bm i =
     (if i < PMM_TOTAL_PAGES
      then (if \<not> pmm_test_bit bm i then Some i else pmm_first_free bm (i + 1))
      else None)"
  by pat_completeness auto
termination
  by (relation "measure (\<lambda>(bm, i). PMM_TOTAL_PAGES - i)") auto

declare pmm_first_free.simps [simp del]

text \<open>The null pointer is address 0; the result is the address and the new state.\<close>

definition pmm_alloc_page :: "pmm_state \<Rightarrow> u64 \<times> pmm_state" where
  "pmm_alloc_page s =
     (if pmm_free_count s = 0 then (0, s)
      else case pmm_first_free (pmm_bitmap s) 0 of
             Some i \<Rightarrow>
               (PMM_START_ADDR + of_nat i * PMM_PAGE_SIZE,
                s\<lparr> pmm_bitmap := pmm_set_bit i (pmm_bitmap s),
                   pmm_free_count := pmm_free_count s - 1 \<rparr>)
           | None \<Rightarrow> (0, s))"

text \<open>
  The scan of \<open>pmm_alloc_pages\<close>, with the loop variables \<open>consecutive\<close>, \<open>start\<close>
  and \<open>i\<close>; it yields the first frame of the run once \<open>consecutive == count\<close>.
\<close>

function pmm_find_run :: "u8 list \<Rightarrow> u64 \<Rightarrow> nat \<Rightarrow> nat \<Rightarrow> nat \<Rightarrow> nat option" where
  "pmm_find_run bm count consecutive start i =
     (if i < PMM_TOTAL_PAGES
      then (if \<not> pmm_test_bit bm i
            then (let start' = (if consecutive = 0 then i else start);
                      consecutive' = consecutive + 1
                  in if consecutive' = unat count then Some start'
                     else pmm_find_run bm count consecutive' start' (i + 1))
            else pmm_find_run bm count 0 start (i + 1))
      else None)"
  by pat_completeness auto
termination
  by (relation "measure (\<lambda>(bm, count, consecutive, start, i). PMM_TOTAL_PAGES - i)") auto

declare pmm_find_run.simps [simp del]

definition pmm_alloc_pages :: "pmm_state \<Rightarrow> u64 \<Rightarrow> u64 \<times> pmm_state" where
  "pmm_alloc_pages s count =
     (if count = 0 \<or> pmm_free_count s < count then (0, s)
      else case pmm_find_run (pmm_bitmap s) count 0 0 0 of
             Some start \<Rightarrow>
               (PMM_START_ADDR + of_nat start * PMM_PAGE_SIZE,
                s\<lparr> pmm_bitmap := fold pmm_set_bit [start ..< start + unat count] (pmm_bitmap s),
                   pmm_free_count := pmm_free_count s - count \<rparr>)
           | None \<Rightarrow> (0, s))"

definition pmm_free_page :: "pmm_state \<Rightarrow> u64 \<Rightarrow> pmm_state" where
  "pmm_free_page s page_addr =
     (if page_addr < PMM_START_ADDR \<or> page_addr \<ge> PMM_START_ADDR + PMM_MEMORY_SIZE then s
      else let page = unat ((page_addr - PMM_START_ADDR) div PMM_PAGE_SIZE)
           in if pmm_test_bit (pmm_bitmap s) page
              then s\<lparr> pmm_bitmap := pmm_clear_bit page (pmm_bitmap s),
                      pmm_free_count := pmm_free_count s + 1 \<rparr>
              else s)"

text \<open>\<open>pmm_free_pages\<close>: the loop over \<open>i < count\<close>, from \<open>i\<close> with \<open>n\<close> rounds left.\<close>

fun pmm_free_pages_loop :: "pmm_state \<Rightarrow> u64 \<Rightarrow> u64 \<Rightarrow> nat \<Rightarrow> pmm_state" where
  "pmm_free_pages_loop s addr i 0 = s"
| "pmm_free_pages_loop s addr i (Suc n) =
     pmm_free_pages_loop (pmm_free_page s (addr + i * PMM_PAGE_SIZE)) addr (i + 1) n"

definition pmm_free_pages :: "pmm_state \<Rightarrow> u64 \<Rightarrow> u64 \<Rightarrow> pmm_state" where
  "pmm_free_pages s addr count = pmm_free_pages_loop s addr 0 (unat count)"

definition pmm_get_free_pages :: "pmm_state \<Rightarrow> u64" where
  "pmm_get_free_pages s = pmm_free_count s"

text \<open>The states of the allocator: \<open>pmm_init\<close>, then any allocation or release.\<close>

inductive pmm_reachable :: "pmm_state \<Rightarrow> bool" where
  reach_init: "pmm_reachable pmm_init"
| reach_alloc_page: "pmm_reachable s \<Longrightarrow> pmm_reachable (snd (pmm_alloc_page s))"
| reach_alloc_pages: "pmm_reachable s \<Longrightarrow> pmm_reachable (snd (pmm_alloc_pages s count))"
| reach_free_page: "pmm_reachable s \<Longrightarrow> pmm_reachable (pmm_free_page s addr)"
| reach_free_pages: "pmm_reachable s \<Longrightarrow> pmm_reachable (pmm_free_pages s addr count)"

text \<open>The number of cleared bits of the bitmap.\<close>

definition pmm_clear_bits :: "u8 list \<Rightarrow> nat" where
  "pmm_clear_bits bm = card {i. i < PMM_TOTAL_PAGES \<and> \<not> pmm_test_bit bm i}"

definition pmm_inv :: "pmm_state \<Rightarrow> bool" where
  "pmm_inv s \<longleftrightarrow> length (pmm_bitmap s) = PMM_BITMAP_SIZE
                \<and> unat (pmm_free_count s) = pmm_clear_bits (pmm_bitmap s)"

text \<open>A run of \<open>n\<close> contiguous free frames that starts at frame \<open>st\<close>.\<close>

definition pmm_run :: "u8 list \<Rightarrow> nat \<Rightarrow> nat \<Rightarrow> bool" where
  "pmm_run bm st n \<longleftrightarrow> st + n \<le> PMM_TOTAL_PAGES \<and> (\<forall>j. st \<le> j \<and> j < st + n \<longrightarrow> \<not> pmm_test_bit bm j)"

section \<open>Kernel heap (heap.c)\<close>

text \<open>
  A block header \<open>heap_block_t\<close> is \<open>{size_t size; int free; struct heap_block* next}\<close>.
  On x86_64 (\<open>size_t\<close> and pointers are 8 bytes, \<open>int\<close> is 4) the fields are at offsets
  0, 8 and 16 and \<open>sizeof(heap_block_t)\<close> is 24.  Headers are read from and written to
  the byte memory, so a header stored over another one is seen as the code would see it.
  The null pointer is address 0.
\<close>

definition HEADER_SIZE :: u64 where
  "HEADER_SIZE = 24"

definition MIN_BLOCK_SIZE :: u64 where
  "MIN_BLOCK_SIZE = 16"

definition blk_size :: "(u64 \<Rightarrow> u8) \<Rightarrow> u64 \<Rightarrow> u64" where
  "blk_size m block = load64 m block"

definition blk_free :: "(u64 \<Rightarrow> u8) \<Rightarrow> u64 \<Rightarrow> u32" where
  "blk_free m block = load32 m (block + 8)"

definition blk_next :: "(u64 \<Rightarrow> u8) \<Rightarrow> u64 \<Rightarrow> u64" where
  "blk_next m block = load64 m (block + 16)"

definition set_size :: "(u64 \<Rightarrow> u8) \<Rightarrow> u64 \<Rightarrow> u64 \<Rightarrow> (u64 \<Rightarrow> u8)" where
  "set_size m block v = store64 m block v"

definition set_free :: "(u64 \<Rightarrow> u8) \<Rightarrow> u64 \<Rightarrow> u32 \<Rightarrow> (u64 \<Rightarrow> u8)" where
  "set_free m block v = store32 m (block + 8) v"

definition set_next :: "(u64 \<Rightarrow> u8) \<Rightarrow> u64 \<Rightarrow> u64 \<Rightarrow> (u64 \<Rightarrow> u8)" where
  "set_next m block v = store64 m (block + 16) v"

record heap_state =
  heap_mem :: "u64 \<Rightarrow> u8"
  heap_start :: u64
  heap_size :: u64
  heap_used :: u64

text \<open>\<open>(size + 15) & ~15\<close>\<close>

definition align_size :: "u64 \<Rightarrow> u64" where
  "align_size sz = (sz + 15) AND NOT 15"

text \<open>\<open>heap_init(start, size)\<close> on a memory \<open>m\<close>.\<close>

definition heap_init :: "(u64 \<Rightarrow> u8) \<Rightarrow> u64 \<Rightarrow> u64 \<Rightarrow> heap_state" where
  "heap_init m start sz =
     \<lparr> heap_mem = set_next (set_free (set_size m start (sz - HEADER_SIZE)) start 1) start 0,
       heap_start = start,
       heap_size = sz,
       heap_used = HEADER_SIZE \<rparr>"

text \<open>
  The loop of \<open>find_free_block\<close>.  It follows \<open>next\<close> pointers and need not end on a
  list with a cycle: the result \<open>None\<close> stands for a loop that never returns.
\<close>

partial_function (option) find_free_block_loop :: "(u64 \<Rightarrow> u8) \<Rightarrow> u64 \<Rightarrow> u64 \<Rightarrow> u64 option" where
  "find_free_block_loop m sz block =
     (if block \<noteq> 0
      then (if blk_free m block \<noteq> 0 \<and> blk_size m block \<ge> sz then Some block
            else find_free_block_loop m sz (blk_next m block))
      else Some 0)"

definition find_free_block :: "heap_state \<Rightarrow> u64 \<Rightarrow> u64 option" where
  "find_free_block s sz = find_free_block_loop (heap_mem s) sz (heap_start s)"

definition split_block :: "(u64 \<Rightarrow> u8) \<Rightarrow> u64 \<Rightarrow> u64 \<Rightarrow> (u64 \<Rightarrow> u8)" where
  "split_block m block sz =
     (let remaining = blk_size m block - sz - HEADER_SIZE
      in if remaining \<ge> MIN_BLOCK_SIZE
         then let new_block = block + HEADER_SIZE + sz;
                  m1 = set_size m new_block remaining;
                  m2 = set_free m1 new_block 1;
                  m3 = set_next m2 new_block (blk_next m2 block);
                  m4 = set_size m3 block sz
              in set_next m4 block new_block
         else m)"

text \<open>The loop of \<open>merge_free_blocks\<close>, from \<open>block\<close> on.\<close>

partial_function (option) merge_free_blocks_loop :: "(u64 \<Rightarrow> u8) \<Rightarrow> u64 \<Rightarrow> (u64 \<Rightarrow> u8) option" where
  "merge_free_blocks_loop m block =
     (if block \<noteq> 0 \<and> blk_next m block \<noteq> 0
      then (if blk_free m block \<noteq> 0 \<and> blk_free m (blk_next m block) \<noteq> 0
            then let m1 = set_size m block
                            (blk_size m block + (HEADER_SIZE + blk_size m (blk_next m block)));
                     m2 = set_next m1 block (blk_next m1 (blk_next m1 block))
                 in merge_free_blocks_loop m2 block
            else merge_free_blocks_loop m (blk_next m block))
      else Some m)"

definition merge_free_blocks :: "heap_state \<Rightarrow> heap_state option" where
  "merge_free_blocks s =
     map_option (\<lambda>m. s\<lparr> heap_mem := m \<rparr>) (merge_free_blocks_loop (heap_mem s) (heap_start s))"

text \<open>\<open>kmalloc(size)\<close>: the pointer returned and the new state.\<close>

definition kmalloc :: "heap_state \<Rightarrow> u64 \<Rightarrow> (u64 \<times> heap_state) option" where
  "kmalloc s sz0 =
     (if sz0 = 0 then Some (0, s)
      else
        let sz = align_size sz0
        in case find_free_block s sz of
             None \<Rightarrow> None
           | Some block \<Rightarrow>
               if block = 0 then Some (0, s)
               else
                 let m1 = split_block (heap_mem s) block sz;
                     m2 = set_free m1 block 0
                 in Some (block + HEADER_SIZE,
                          s\<lparr> heap_mem := m2,
                             heap_used := heap_used s + (blk_size m2 block + HEADER_SIZE) \<rparr>))"

text \<open>
  \<open>kcalloc(count, size)\<close>.  The product wraps as \<open>size_t\<close> does.  \<open>memset(ptr, 0, total)\<close>
  is the store of \<open>total\<close> zero bytes from \<open>ptr\<close> on, in a memory that has every address.
  For a total above \<open>2^64 - 16\<close> the rounding of \<open>kmalloc\<close> wraps to 0, a block can be
  handed out, and the byte loop of \<open>memset\<close> then leaves the 64 MiB that the boot code
  maps: there the kernel halts and \<open>kcalloc\<close> does not return, which this definition
  does not show.  The theorems use \<open>kcalloc\<close> only for totals that the rounding does not
  wrap.
\<close>

definition kcalloc :: "heap_state \<Rightarrow> u64 \<Rightarrow> u64 \<Rightarrow> (u64 \<times> heap_state) option" where
  "kcalloc s count sz =
     (let total = count * sz
      in case kmalloc s total of
           None \<Rightarrow> None
         | Some (ptr, s') \<Rightarrow>
             if ptr \<noteq> 0
             then Some (ptr, s'\<lparr> heap_mem := mem_write (heap_mem s') ptr (replicate (unat total) 0) \<rparr>)
             else Some (ptr, s'))"

definition kfree :: "heap_state \<Rightarrow> u64 \<Rightarrow> heap_state option" where
  "kfree s ptr =
     (if ptr = 0 then Some s
      else
        let block = ptr - HEADER_SIZE
        in if block < heap_start s \<or> block \<ge> heap_start s + heap_size s then Some s
           else if blk_free (heap_mem s) block = 0
             then let m1 = set_free (heap_mem s) block 1
                  in merge_free_blocks
                       (s\<lparr> heap_mem := m1,
                          heap_used := heap_used s - (blk_size m1 block + HEADER_SIZE) \<rparr>)
             else Some s)"

text \<open>\<open>heap_stats\<close>: total, used and free bytes.\<close>

definition heap_stats :: "heap_state \<Rightarrow> u64 \<times> u64 \<times> u64" where
  "heap_stats s = (heap_size s, heap_used s, heap_size s - heap_used s)"

text \<open>
  The block list as the code walks it: address, size and free flag of every header
  reached from \<open>block\<close> through \<open>next\<close>, up to the null pointer.
\<close>

partial_function (option) heap_blocks_from :: "(u64 \<Rightarrow> u8) \<Rightarrow> u64 \<Rightarrow> (u64 \<times> u64 \<times> u32) list option" where
  "heap_blocks_from m block =
     (if block = 0 then Some []
      else Option.bind (heap_blocks_from m (blk_next m block))
             (\<lambda>bs. Some ((block, blk_size m block, blk_free m block) # bs)))"

definition heap_blocks :: "heap_state \<Rightarrow> (u64 \<times> u64 \<times> u32) list option" where
  "heap_blocks s = heap_blocks_from (heap_mem s) (heap_start s)"

subsection \<open>The block list of a well-formed heap\<close>

text \<open>
  The list of blocks of a heap, in address order, each with its payload size and whether
  it is free.  \<open>chain m a bs z\<close> says that memory \<open>m\<close> holds the headers of \<open>bs\<close> from
  address \<open>a\<close> on, each block directly behind the payload of the one before, linked
  through \<open>next\<close>, the last \<open>next\<close> being \<open>z\<close>.  A heap is well-formed for \<open>bs\<close> when
  the chain starts at \<open>heap_start\<close>, ends with the null pointer and fills the region.
\<close>

type_synonym ablock = "nat \<times> bool"

fun heap_extent :: "ablock list \<Rightarrow> nat" where
  "heap_extent [] = 0"
| "heap_extent ((sz, fr) # bs) = 24 + sz + heap_extent bs"

fun chain :: "(u64 \<Rightarrow> u8) \<Rightarrow> nat \<Rightarrow> ablock list \<Rightarrow> u64 \<Rightarrow> bool" where
  "chain m a [] z \<longleftrightarrow> True"
| "chain m a ((sz, fr) # bs) z \<longleftrightarrow>
     blk_size m (of_nat a) = of_nat sz
     \<and> blk_free m (of_nat a) = (if fr then 1 else 0)
     \<and> blk_next m (of_nat a) = (if bs = [] then z else of_nat (a + 24 + sz))
     \<and> chain m (a + 24 + sz) bs z"

definition heap_wf :: "heap_state \<Rightarrow> ablock list \<Rightarrow> bool" where
  "heap_wf s bs \<longleftrightarrow>
     bs \<noteq> [] \<and> 0 < unat (heap_start s)
     \<and> heap_extent bs = unat (heap_size s)
     \<and> unat (heap_start s) + unat (heap_size s) < 2 ^ 64
     \<and> chain (heap_mem s) (unat (heap_start s)) bs 0"

text \<open>The first free block of at least \<open>r\<close> bytes: the blocks before it, its size, the rest.\<close>

fun fit_split :: "nat \<Rightarrow> ablock list \<Rightarrow> (ablock list \<times> nat \<times> ablock list) option" where
  "fit_split r [] = None"
| "fit_split r ((sz, fr) # bs) =
     (if fr \<and> r \<le> sz then Some ([], sz, bs)
      else map_option (\<lambda>(xs, s, ys). ((sz, fr) # xs, s, ys)) (fit_split r bs))"

text \<open>
  What \<open>kmalloc\<close> makes of the chosen block of size \<open>sz\<close> for a rounded request \<open>r\<close>
  when \<open>r + 24 \<le> sz\<close>: two blocks if the rest can hold 16 bytes, else the block as it is.
\<close>

definition split_spec :: "nat \<Rightarrow> nat \<Rightarrow> ablock list" where
  "split_spec r sz = (if 16 \<le> sz - r - 24 then [(r, False), (sz - r - 24, True)] else [(sz, False)])"

text \<open>The pass of \<open>merge_free_blocks\<close> over the list.\<close>

fun merge_spec :: "ablock list \<Rightarrow> ablock list" where
  "merge_spec ((s1, True) # (s2, True) # bs) = merge_spec ((s1 + 24 + s2, True) # bs)"
| "merge_spec (b # bs) = b # merge_spec bs"
| "merge_spec [] = []"

text \<open>The block whose header is \<open>off\<close> bytes behind the start: the blocks before it, the block, the rest.\<close>

fun block_at :: "nat \<Rightarrow> ablock list \<Rightarrow> (ablock list \<times> ablock \<times> ablock list) option" where
  "block_at off [] = None"
| "block_at off ((sz, fr) # bs) =
     (if off = 0 then Some ([], (sz, fr), bs)
      else if off < 24 + sz then None
      else map_option (\<lambda>(xs, b, ys). ((sz, fr) # xs, b, ys)) (block_at (off - (24 + sz)) bs))"

text \<open>The headers of the list as \<open>heap_blocks\<close> reads them.\<close>

fun blocks_of :: "nat \<Rightarrow> ablock list \<Rightarrow> (u64 \<times> u64 \<times> u32) list" where
  "blocks_of a [] = []"
| "blocks_of a ((sz, fr) # bs) = (of_nat a, of_nat sz, if fr then 1 else 0) # blocks_of (a + 24 + sz) bs"

text \<open>Header plus payload bytes of the blocks in use.\<close>

fun used_bytes :: "ablock list \<Rightarrow> nat" where
  "used_bytes [] = 0"
| "used_bytes ((sz, fr) # bs) = (if fr then 0 else sz + 24) + used_bytes bs"

text \<open>The payload addresses of the blocks in use, and the header addresses of all blocks.\<close>

fun used_ptrs :: "nat \<Rightarrow> ablock list \<Rightarrow> nat set" where
  "used_ptrs a [] = {}"
| "used_ptrs a ((sz, fr) # bs) = (if fr then {} else {a + 24}) \<union> used_ptrs (a + 24 + sz) bs"

fun block_addrs :: "nat \<Rightarrow> ablock list \<Rightarrow> nat set" where
  "block_addrs a [] = {}"
| "block_addrs a ((sz, fr) # bs) = {a} \<union> block_addrs (a + 24 + sz) bs"

subsection \<open>Sequences of heap operations\<close>

text \<open>
  \<open>split_fits s n\<close>: for the block that \<open>kmalloc s n\<close> chooses, the subtraction
  \<open>block->size - size - HEADER_SIZE\<close> of \<open>split_block\<close> does not wrap around, that is
  the block holds the rounded request and a header.
\<close>

definition split_fits :: "heap_state \<Rightarrow> u64 \<Rightarrow> bool" where
  "split_fits s n \<longleftrightarrow>
     (case find_free_block s (align_size n) of
        None \<Rightarrow> False
      | Some block \<Rightarrow>
          block = 0 \<or> unat (align_size n) + 24 \<le> unat (blk_size (heap_mem s) block))"

text \<open>
  The states reached from \<open>heap_init m start sz\<close>, with the set of pointers handed out
  and not yet freed.  The region is not at address 0, holds a header and does not wrap
  around the address space.  Allocations are those for which \<open>split_fits\<close> holds;
  \<open>kcalloc\<close> moreover with a total that the rounding does not wrap; \<open>kfree\<close> gets the
  null pointer or a pointer handed out and not yet freed.
\<close>

inductive heap_reach :: "u64 \<Rightarrow> u64 \<Rightarrow> heap_state \<Rightarrow> u64 set \<Rightarrow> bool" for start sz where
  reach_heap_init:
    "start \<noteq> 0 \<Longrightarrow> 24 \<le> unat sz \<Longrightarrow> unat start + unat sz < 2 ^ 64 \<Longrightarrow>
     heap_reach start sz (heap_init m start sz) {}"
| reach_kmalloc:
    "heap_reach start sz s L \<Longrightarrow> split_fits s n \<Longrightarrow> kmalloc s n = Some (p, s') \<Longrightarrow>
     heap_reach start sz s' (if p = 0 then L else insert p L)"
| reach_kcalloc:
    "heap_reach start sz s L \<Longrightarrow> split_fits s (count * esz) \<Longrightarrow>
     count * esz \<le> align_size (count * esz) \<Longrightarrow> kcalloc s count esz = Some (p, s') \<Longrightarrow>
     heap_reach start sz s' (if p = 0 then L else insert p L)"
| reach_kfree:
    "heap_reach start sz s L \<Longrightarrow> p = 0 \<or> p \<in> L \<Longrightarrow> kfree s p = Some s' \<Longrightarrow>
     heap_reach start sz s' (L - {p})"

text \<open>
  What holds in every such state, for some block list \<open>bs\<close>: the heap is well-formed,
  the counter is one header plus the bytes of the blocks in use, the pointers handed out
  are payload addresses of blocks in use, and every header lies a multiple of 8 bytes
  behind the start.
\<close>

definition heap_inv :: "heap_state \<Rightarrow> u64 set \<Rightarrow> ablock list \<Rightarrow> bool" where
  "heap_inv s L bs \<longleftrightarrow>
     heap_wf s bs
     \<and> heap_used s = 24 + of_nat (used_bytes bs)
     \<and> L \<subseteq> of_nat ` used_ptrs (unat (heap_start s)) bs
     \<and> (\<forall>x \<in> block_addrs 0 bs. 8 dvd x)"

text \<open>The sum that claim C5 speaks of: header plus payload over the blocks not free.\<close>

definition used_sum :: "(u64 \<times> u64 \<times> u32) list \<Rightarrow> u64" where
  "used_sum bl = sum_list (map (\<lambda>(b, sz, fr). sz + HEADER_SIZE) (filter (\<lambda>(b, sz, fr). fr = 0) bl))"

text \<open>A memory of zero bytes, for concrete runs.\<close>

definition mem0 :: "u64 \<Rightarrow> u8" where
  "mem0 = (\<lambda>a. 0)"

text \<open>
  The heap as \<open>kernel_main\<close> sets it up: \<open>heap_init((void*)0x400000, 4 MiB)\<close>.  Then the
  run \<open>a = kmalloc(64); b = kmalloc(64); kfree(a); kmalloc(64); kmalloc(64)\<close>, state by
  state.
\<close>

definition kernel_heap :: heap_state where
  "kernel_heap = heap_init mem0 0x400000 0x400000"

definition reuse_s1 :: heap_state where
  "reuse_s1 = snd (the (kmalloc kernel_heap 64))"

definition reuse_s2 :: heap_state where
  "reuse_s2 = snd (the (kmalloc reuse_s1 64))"

definition reuse_s3 :: heap_state where
  "reuse_s3 = the (kfree reuse_s2 0x400018)"

definition reuse_s4 :: heap_state where
  "reuse_s4 = snd (the (kmalloc reuse_s3 64))"

section \<open>PS/2 keyboard driver (keyboard.c)\<close>

text \<open>
  The driver state: the ring buffer with its two indices and the four modifier flags.
  The flags are C \<open>int\<close>s used as truth values; \<open>!x\<close> is \<open>c_not x\<close>.  The scancode
  byte that the handler reads from port \<open>0x60\<close> is its argument.
\<close>

definition KBD_BUFFER_SIZE :: nat where
  "KBD_BUFFER_SIZE = 256"

record kbd_state =
  kbd_buffer :: "u8 list"
  kbd_buffer_head :: nat
  kbd_buffer_tail :: nat
  shift_pressed :: int
  ctrl_pressed :: int
  alt_pressed :: int
  caps_lock :: int

definition c_not :: "int \<Rightarrow> int" where
  "c_not x = (if x = 0 then 1 else 0)"

text \<open>The two tables of 128 entries; the initialisers list 119 of them, the rest are 0.\<close>

definition scancode_to_ascii :: "u8 list" where
  "scancode_to_ascii =
     [0, 27, 49, 50, 51, 52, 53, 54, 55, 56, 57, 48, 45, 61, 8,
      9, 113, 119, 101, 114, 116, 121, 117, 105, 111, 112, 91, 93, 10,
      0, 97, 115, 100, 102, 103, 104, 106, 107, 108, 59, 39, 96,
      0, 92, 122, 120, 99, 118, 98, 110, 109, 44, 46, 47, 0,
      42, 0, 32, 0, 0, 0, 0, 0, 0, 0, 0, 0, 0, 0, 0, 0,
      0, 0, 0, 45, 0, 0, 0, 43, 0, 0, 0, 0, 0, 0, 0, 0,
      0, 0, 0, 0, 0, 0, 0, 0, 0, 0, 0, 0, 0, 0, 0, 0,
      0, 0, 0, 0, 0, 0, 0, 0, 0, 0, 0, 0, 0, 0, 0, 0]
     @ replicate 9 0"

definition scancode_to_ascii_shift :: "u8 list" where
  "scancode_to_ascii_shift =
     [0, 27, 33, 64, 35, 36, 37, 94, 38, 42, 40, 41, 95, 43, 8,
      9, 81, 87, 69, 82, 84, 89, 85, 73, 79, 80, 123, 125, 10,
      0, 65, 83, 68, 70, 71, 72, 74, 75, 76, 58, 34, 126,
      0, 124, 90, 88, 67, 86, 66, 78, 77, 60, 62, 63, 0,
      42, 0, 32, 0, 0, 0, 0, 0, 0, 0, 0, 0, 0, 0, 0, 0,
      0, 0, 0, 45, 0, 0, 0, 43, 0, 0, 0, 0, 0, 0, 0, 0,
      0, 0, 0, 0, 0, 0, 0, 0, 0, 0, 0, 0, 0, 0, 0, 0,
      0, 0, 0, 0, 0, 0, 0, 0, 0, 0, 0, 0, 0, 0, 0, 0]
     @ replicate 9 0"

definition SC_LSHIFT :: u8 where "SC_LSHIFT = 0x2A"
definition SC_RSHIFT :: u8 where "SC_RSHIFT = 0x36"
definition SC_CTRL :: u8 where "SC_CTRL = 0x1D"
definition SC_ALT :: u8 where "SC_ALT = 0x38"
definition SC_CAPS :: u8 where "SC_CAPS = 0x3A"

definition kbd_buffer_put :: "u8 \<Rightarrow> kbd_state \<Rightarrow> kbd_state" where
  "kbd_buffer_put c s =
     (let next = (kbd_buffer_head s + 1) mod KBD_BUFFER_SIZE
      in if next \<noteq> kbd_buffer_tail s
         then s\<lparr> kbd_buffer := (kbd_buffer s)[kbd_buffer_head s := c],
                 kbd_buffer_head := next \<rparr>
         else s)"

definition keyboard_interrupt_handler :: "u8 \<Rightarrow> kbd_state \<Rightarrow> kbd_state" where
  "keyboard_interrupt_handler port_byte s =
     (let released = uint (port_byte AND 0x80);
          scancode = port_byte AND 0x7F
      in if scancode = SC_LSHIFT \<or> scancode = SC_RSHIFT then s\<lparr> shift_pressed := c_not released \<rparr>
         else if scancode = SC_CTRL then s\<lparr> ctrl_pressed := c_not released \<rparr>
         else if scancode = SC_ALT then s\<lparr> alt_pressed := c_not released \<rparr>
         else if scancode = SC_CAPS
           then (if released = 0 then s\<lparr> caps_lock := c_not (caps_lock s) \<rparr> else s)
         else if released \<noteq> 0 then s
         else
           let c = (if shift_pressed s \<noteq> 0 then scancode_to_ascii_shift ! unat scancode
                    else scancode_to_ascii ! unat scancode);
               c = (if caps_lock s \<noteq> 0 \<and> 97 \<le> c \<and> c \<le> 122 then c - 97 + 65
                    else if caps_lock s \<noteq> 0 \<and> 65 \<le> c \<and> c \<le> 90 then c - 65 + 97
                    else c);
               c = (if ctrl_pressed s \<noteq> 0 \<and> (c = 99 \<or> c = 67) then 3 else c)
           in if c \<noteq> 0 then kbd_buffer_put c s else s)"

definition keyboard_init :: kbd_state where
  "keyboard_init = \<lparr> kbd_buffer = replicate KBD_BUFFER_SIZE 0,
                     kbd_buffer_head = 0, kbd_buffer_tail = 0,
                     shift_pressed = 0, ctrl_pressed = 0, alt_pressed = 0, caps_lock = 0 \<rparr>"

text \<open>The handler run on a sequence of scancode bytes, one interrupt each.\<close>

fun kbd_deliver :: "u8 list \<Rightarrow> kbd_state \<Rightarrow> kbd_state" where
  "kbd_deliver [] s = s"
| "kbd_deliver (b # bs) s = kbd_deliver bs (keyboard_interrupt_handler b s)"

text \<open>Every flag holds 0 or 1: the driver stores only 0 and results of \<open>!\<close>.\<close>

definition kbd_flags_ok :: "kbd_state \<Rightarrow> bool" where
  "kbd_flags_ok s \<longleftrightarrow> shift_pressed s \<in> {0, 1} \<and> ctrl_pressed s \<in> {0, 1}
                      \<and> alt_pressed s \<in> {0, 1} \<and> caps_lock s \<in> {0, 1}"

section \<open>Virtio network driver (virtio_net.c)\<close>

text \<open>
  The send and receive paths of the legacy virtio-net driver.  A virtqueue is the
  descriptor table, the available ring, the used ring, the queue size, the cached
  \<open>last_used_idx\<close> and the table of slot buffer addresses.  The slot buffers live in the
  byte memory.  Every store to a device-visible structure and every port write is
  appended to a log in program order, so that the order of the stores can be stated.
  An index outside a table, a read past the caller's data and a division by a queue
  size of 0 are faults: the C code has no defined result there.
\<close>

definition VIRTIO_PCI_QUEUE_NOTIFY :: u16 where
  "VIRTIO_PCI_QUEUE_NOTIFY = 0x10"

definition VIRTQ_DESC_F_WRITE :: u16 where
  "VIRTQ_DESC_F_WRITE = 0x02"

definition NET_BUFFER_SIZE :: nat where
  "NET_BUFFER_SIZE = 2048"

text \<open>\<open>sizeof(virtio_net_hdr_t)\<close>: the packed fields take 1 + 1 + 2 + 2 + 2 + 2 bytes.\<close>

definition VIRTIO_NET_HDR_SIZE :: nat where
  "VIRTIO_NET_HDR_SIZE = 1 + 1 + 2 + 2 + 2 + 2"

record virtq_desc =
  d_addr :: u64
  d_len :: u32
  d_flags :: u16
  d_next :: u16

record virtq =
  vq_desc :: "virtq_desc list"
  vq_avail_idx :: u16
  vq_avail_ring :: "u16 list"
  vq_used_idx :: u16
  vq_used_ring :: "(u32 \<times> u32) list"
  vq_size :: u16
  vq_last_used_idx :: u16
  vq_buffers :: "u64 list"

datatype vio_event =
    Ev_buf_write u64 "u8 list"
  | Ev_desc_write nat virtq_desc
  | Ev_avail_ring nat u16
  | Ev_avail_idx u16
  | Ev_outw u16 u16

datatype vio_fault = Divide_error | Out_of_bounds

record virtio_state =
  virtio_initialized :: int
  io_base :: u16
  rx_queue :: virtq
  tx_queue :: virtq
  tx_idx :: nat
  net_mem :: "u64 \<Rightarrow> u8"
  vio_log :: "vio_event list"

text \<open>
  \<open>virtq_add_rx_buffer\<close>: the descriptor of slot \<open>idx\<close>, then the ring entry, then the
  store to \<open>avail->idx\<close>.  The result is the queue and the stores made.
\<close>

definition virtq_add_rx_buffer :: "virtq \<Rightarrow> nat \<Rightarrow> vio_fault + (virtq \<times> vio_event list)" where
  "virtq_add_rx_buffer vq idx =
     (if idx \<ge> length (vq_desc vq) \<or> idx \<ge> length (vq_buffers vq) then Inl Out_of_bounds
      else
        let d = \<lparr> d_addr = vq_buffers vq ! idx, d_len = of_nat NET_BUFFER_SIZE,
                  d_flags = VIRTQ_DESC_F_WRITE, d_next = 0 \<rparr>;
            avail_idx = vq_avail_idx vq
        in if vq_size vq = 0 then Inl Divide_error
           else
             let slot = unat avail_idx mod unat (vq_size vq)
             in if slot \<ge> length (vq_avail_ring vq) then Inl Out_of_bounds
                else Inr (vq\<lparr> vq_desc := (vq_desc vq)[idx := d],
                              vq_avail_ring := (vq_avail_ring vq)[slot := of_nat idx],
                              vq_avail_idx := avail_idx + 1 \<rparr>,
                          [Ev_desc_write idx d, Ev_avail_ring slot (of_nat idx),
                           Ev_avail_idx (avail_idx + 1)]))"

text \<open>\<open>virtio_net_send(data, len)\<close>: the return value and the new state.\<close>

definition virtio_net_send :: "virtio_state \<Rightarrow> u8 list \<Rightarrow> u16 \<Rightarrow> vio_fault + (int \<times> virtio_state)" where
  "virtio_net_send s data len =
     (if virtio_initialized s = 0 \<or> unat len > NET_BUFFER_SIZE - VIRTIO_NET_HDR_SIZE
      then Inr (- 1, s)
      else
        let q = tx_queue s; i = tx_idx s
        in if i \<ge> length (vq_buffers q) \<or> i \<ge> length (vq_desc q) \<or> length data < unat len
           then Inl Out_of_bounds
           else
             let buffer = vq_buffers q ! i;
                 hdr = replicate VIRTIO_NET_HDR_SIZE 0;
                 m1 = mem_write (net_mem s) buffer hdr;
                 payload = take (unat len) data;
                 m2 = mem_write m1 (buffer + of_nat VIRTIO_NET_HDR_SIZE) payload;
                 d = \<lparr> d_addr = buffer, d_len = of_nat VIRTIO_NET_HDR_SIZE + ucast len,
                       d_flags = 0, d_next = 0 \<rparr>;
                 avail_idx = vq_avail_idx q
             in if vq_size q = 0 then Inl Divide_error
                else
                  let slot = unat avail_idx mod unat (vq_size q)
                  in if slot \<ge> length (vq_avail_ring q) then Inl Out_of_bounds
                     else Inr (0,
                       s\<lparr> tx_queue := q\<lparr> vq_desc := (vq_desc q)[i := d],
                                          vq_avail_ring := (vq_avail_ring q)[slot := of_nat i],
                                          vq_avail_idx := avail_idx + 1 \<rparr>,
                          tx_idx := (i + 1) mod unat (vq_size q),
                          net_mem := m2,
                          vio_log := vio_log s @
                            [Ev_buf_write buffer hdr,
                             Ev_buf_write (buffer + of_nat VIRTIO_NET_HDR_SIZE) payload,
                             Ev_desc_write i d,
                             Ev_avail_ring slot (of_nat i),
                             Ev_avail_idx (avail_idx + 1),
                             Ev_outw (io_base s + VIRTIO_PCI_QUEUE_NOTIFY) 1] \<rparr>))"

text \<open>
  \<open>virtio_net_receive(buffer, max_len)\<close>: the return value, the bytes copied to the
  caller's buffer and the new state.
\<close>

definition virtio_net_receive :: "virtio_state \<Rightarrow> u16 \<Rightarrow> vio_fault + (int \<times> u8 list \<times> virtio_state)" where
  "virtio_net_receive s max_len =
     (if virtio_initialized s = 0 then Inr (- 1, [], s)
      else
        let q = rx_queue s
        in if vq_last_used_idx q = vq_used_idx q then Inr (0, [], s)
           else if vq_size q = 0 then Inl Divide_error
           else
             let used_idx = unat (vq_last_used_idx q) mod unat (vq_size q)
             in if used_idx \<ge> length (vq_used_ring q) then Inl Out_of_bounds
                else
                  let desc_idx = fst (vq_used_ring q ! used_idx);
                      len = snd (vq_used_ring q ! used_idx);
                      q1 = q\<lparr> vq_last_used_idx := vq_last_used_idx q + 1 \<rparr>;
                      copy = len > of_nat VIRTIO_NET_HDR_SIZE;
                      len1 = (if copy
                              then (if len - of_nat VIRTIO_NET_HDR_SIZE > ucast max_len
                                    then ucast max_len else len - of_nat VIRTIO_NET_HDR_SIZE)
                              else 0)
                  in if copy \<and> unat desc_idx \<ge> length (vq_buffers q) then Inl Out_of_bounds
                     else
                       let copied = (if copy
                                     then mem_read (net_mem s)
                                            (vq_buffers q ! unat desc_idx + of_nat VIRTIO_NET_HDR_SIZE)
                                            (unat len1)
                                     else [])
                       in case virtq_add_rx_buffer q1 (unat desc_idx) of
                            Inl f \<Rightarrow> Inl f
                          | Inr (q2, evs) \<Rightarrow>
                              Inr (uint len1, copied,
                                   s\<lparr> rx_queue := q2,
                                      vio_log := vio_log s @ evs @
                                        [Ev_outw (io_base s + VIRTIO_PCI_QUEUE_NOTIFY) 0] \<rparr>))"

text \<open>A sequence of calls of \<open>virtio_net_send\<close>, one per packet, with the return values.\<close>

fun virtio_send_all :: "virtio_state \<Rightarrow> u8 list list \<Rightarrow> vio_fault + (int list \<times> virtio_state)" where
  "virtio_send_all s [] = Inr ([], s)"
| "virtio_send_all s (p # ps) =
     (case virtio_net_send s p (of_nat (length p)) of
        Inl f \<Rightarrow> Inl f
      | Inr (r, s') \<Rightarrow>
          (case virtio_send_all s' ps of
             Inl f \<Rightarrow> Inl f
           | Inr (rs, s'') \<Rightarrow> Inr (r # rs, s'')))"

text \<open>A queue whose tables have \<open>size\<close> entries each, \<open>size\<close> not 0.\<close>

definition virtq_ok :: "virtq \<Rightarrow> bool" where
  "virtq_ok q \<longleftrightarrow> vq_size q \<noteq> 0
                 \<and> length (vq_desc q) = unat (vq_size q)
                 \<and> length (vq_avail_ring q) = unat (vq_size q)
                 \<and> length (vq_used_ring q) = unat (vq_size q)
                 \<and> length (vq_buffers q) = unat (vq_size q)"

text \<open>
  A driver state as \<open>virtio_net_init\<close> leaves it with queues of 16 slots: the RX slots
  published, nothing used yet, slot buffers of 2048 bytes each.
\<close>

definition vio_slot_addr :: "u64 \<Rightarrow> nat \<Rightarrow> u64" where
  "vio_slot_addr base i = base + of_nat (i * 2048)"

definition vio_queue16 :: "u64 \<Rightarrow> bool \<Rightarrow> virtq" where
  "vio_queue16 base rx =
     \<lparr> vq_desc = map (\<lambda>i. if rx then \<lparr> d_addr = vio_slot_addr base i, d_len = 2048,
                                        d_flags = VIRTQ_DESC_F_WRITE, d_next = 0 \<rparr>
                            else \<lparr> d_addr = 0, d_len = 0, d_flags = 0, d_next = 0 \<rparr>) [0 ..< 16],
       vq_avail_idx = (if rx then 16 else 0),
       vq_avail_ring = map (\<lambda>i. if rx then of_nat i else 0) [0 ..< 16],
       vq_used_idx = 0,
       vq_used_ring = replicate 16 (0, 0),
       vq_size = 16,
       vq_last_used_idx = 0,
       vq_buffers = map (vio_slot_addr base) [0 ..< 16] \<rparr>"

definition vio_ready :: virtio_state where
  "vio_ready = \<lparr> virtio_initialized = 1, io_base = 0xC000,
                 rx_queue = vio_queue16 0x500000 True,
                 tx_queue = vio_queue16 0x600000 False,
                 tx_idx = 0, net_mem = (\<lambda>a. 0), vio_log = [] \<rparr>"

text \<open>The same state after the device has used slot 3 and reported a length of 10 bytes.\<close>

definition vio_short :: virtio_state where
  "vio_short = vio_ready\<lparr> rx_queue := (rx_queue vio_ready)\<lparr> vq_used_idx := 1,
                  vq_used_ring := (vq_used_ring (rx_queue vio_ready))[0 := (3, 10)] \<rparr> \<rparr>"

section \<open>Byte memory: proofs\<close>

text \<open>Little-endian loads give back what a store wrote.\<close>

lemma le_bytes_Suc: "le_bytes (Suc n) v = ucast v # le_bytes n (drop_bit 8 v)"
  by (simp add: le_bytes_def map_upt_Suc drop_bit_drop_bit add.commute del: upt_Suc)

lemma le_word_bytes: "(le_word (le_bytes n v) :: 'a::len word) = take_bit (8 * n) (v :: 'a word)"
proof (induction n arbitrary: v)
  case 0
  show ?case by (simp add: le_bytes_def)
next
  case (Suc n)
  show ?case
    unfolding le_bytes_Suc le_word.simps Suc.IH
    by (rule bit_word_eqI) (auto simp: bit_simps)
qed

lemma le_word_bytes64: "le_word (le_bytes 8 (v :: u64)) = v"
  by (simp add: le_word_bytes take_bit_word_eq_self)

lemma le_word_bytes32: "le_word (le_bytes 4 (v :: u32)) = v"
  by (simp add: le_word_bytes take_bit_word_eq_self)

lemma length_le_bytes [simp]: "length (le_bytes n v) = n"
  by (simp add: le_bytes_def)


text \<open>Addresses as natural numbers below \<open>2^64\<close>.\<close>

lemma mem_write_apply:
  "length bs \<le> 2 ^ 64 \<Longrightarrow>
   mem_write m a bs x = (if unat (x - a) < length bs then bs ! unat (x - a) else m x)"
proof (induction bs arbitrary: m a)
  case Nil
  then show ?case by simp
next
  case (Cons b bs)
  have len: "length bs \<le> 2 ^ 64" using Cons.prems by simp
  have step: "mem_write m a (b # bs) x =
      (if unat (x - (a + 1)) < length bs then bs ! unat (x - (a + 1)) else (m(a := b)) x)"
    by (simp add: Cons.IH [OF len])
  show ?case
  proof (cases "x = a")
    case True
    have "unat (- 1 :: u64) = 2 ^ 64 - 1"
      by (simp add: unsigned_minus_1_eq_mask mask_eq_exp_minus_1)
    with Cons.prems have "\<not> unat (- 1 :: u64) < length bs" by simp
    with True show ?thesis unfolding step by simp
  next
    case False
    then have nz: "x - a \<noteq> 0" by simp
    have "x - (a + 1) = (x - a) - 1" by simp
    then have u: "unat (x - (a + 1)) = unat (x - a) - 1"
      using unat_minus_one [OF nz] by (simp only:)
    have pos: "0 < unat (x - a)" using nz by (simp add: unat_gt_0)
    show ?thesis
      unfolding step using False u pos by (auto simp: nth_Cons')
  qed
qed

lemma mem_read_write_same:
  assumes "length bs < 2 ^ 64"
  shows "mem_read (mem_write m a bs) a (length bs) = bs"
proof (rule nth_equalityI)
  show "length (mem_read (mem_write m a bs) a (length bs)) = length bs"
    by (simp add: mem_read_def)
next
  fix i assume "i < length (mem_read (mem_write m a bs) a (length bs))"
  then have i: "i < length bs" by (simp add: mem_read_def)
  then have "unat (of_nat i :: u64) = i" using assms by (simp add: unat_of_nat)
  with i assms show "mem_read (mem_write m a bs) a (length bs) ! i = bs ! i"
    by (simp add: mem_read_def mem_write_apply)
qed

lemma of_nat_diff_u64:
  fixes x w :: nat
  assumes "x < 2 ^ 64" "w < 2 ^ 64"
  shows "unat ((of_nat x :: u64) - of_nat w) = (if w \<le> x then x - w else 2 ^ 64 - (w - x))"
proof -
  have ux: "unat (of_nat x :: u64) = x" and uw: "unat (of_nat w :: u64) = w"
    using assms by (simp_all add: unat_of_nat)
  have "unat ((of_nat x :: u64) - of_nat w) = (if w \<le> x then x - w else x + 2 ^ 64 - w)"
    by (simp add: unat_sub_if' ux uw)
  moreover have "x + 2 ^ 64 - w = 2 ^ 64 - (w - x)" if "\<not> w \<le> x"
    using that assms by arith
  ultimately show ?thesis by simp
qed

lemma mem_write_outside:
  fixes x w :: nat
  assumes "x < w \<or> w + length bs \<le> x" "w + length bs \<le> 2 ^ 64" "x < 2 ^ 64"
  shows "mem_write m (of_nat w) bs (of_nat x) = m (of_nat x)"
proof (cases "bs = []")
  case True
  then show ?thesis by simp
next
  case False
  then have w: "w < 2 ^ 64" using assms(2) by (cases bs) auto
  have "\<not> unat ((of_nat x :: u64) - of_nat w) < length bs"
    using assms by (auto simp: of_nat_diff_u64 [OF assms(3) w])
  moreover have "length bs \<le> 2 ^ 64" using assms(2) by simp
  ultimately show ?thesis by (simp add: mem_write_apply)
qed

lemma mem_read_write_disjoint:
  fixes x w :: nat
  assumes "x + k \<le> w \<or> w + length bs \<le> x" "w + length bs \<le> 2 ^ 64" "x + k \<le> 2 ^ 64"
  shows "mem_read (mem_write m (of_nat w) bs) (of_nat x) k = mem_read m (of_nat x) k"
proof -
  have "mem_write m (of_nat w) bs (of_nat x + of_nat i) = m (of_nat x + of_nat i)" if "i < k" for i
  proof -
    have "mem_write m (of_nat w) bs (of_nat (x + i)) = m (of_nat (x + i))"
      using assms that by (intro mem_write_outside) auto
    then show ?thesis by simp
  qed
  then show ?thesis by (simp add: mem_read_def)
qed


lemma load64_store64_same: "load64 (store64 m a v) a = v"
  using mem_read_write_same [of "le_bytes 8 v" m a]
  by (simp add: load64_def store64_def le_word_bytes64)

lemma load32_store32_same: "load32 (store32 m a v) a = v"
  using mem_read_write_same [of "le_bytes 4 v" m a]
  by (simp add: load32_def store32_def le_word_bytes32)

lemma load64_write_disjoint:
  fixes x w :: nat
  assumes "x + 8 \<le> w \<or> w + length bs \<le> x" "w + length bs \<le> 2 ^ 64" "x + 8 \<le> 2 ^ 64"
  shows "load64 (mem_write m (of_nat w) bs) (of_nat x) = load64 m (of_nat x)"
  using mem_read_write_disjoint [OF assms] by (simp add: load64_def)

lemma load32_write_disjoint:
  fixes x w :: nat
  assumes "x + 4 \<le> w \<or> w + length bs \<le> x" "w + length bs \<le> 2 ^ 64" "x + 4 \<le> 2 ^ 64"
  shows "load32 (mem_write m (of_nat w) bs) (of_nat x) = load32 m (of_nat x)"
  using mem_read_write_disjoint [OF assms] by (simp add: load32_def)

lemma mem_read_write_before:
  assumes "length bs < 2 ^ 64" "n + length bs \<le> 2 ^ 64" "n < 2 ^ 64"
  shows "mem_read (mem_write m (a + of_nat n) bs) a n = mem_read m a n"
proof (rule nth_equalityI)
  show "length (mem_read (mem_write m (a + of_nat n) bs) a n) = length (mem_read m a n)"
    by (simp add: mem_read_def)
next
  fix i assume "i < length (mem_read (mem_write m (a + of_nat n) bs) a n)"
  then have i: "i < n" by (simp add: mem_read_def)
  obtain k where k: "n = i + k" "0 < k"
    using i by (metis less_imp_add_positive)
  have "(a + of_nat i) - (a + of_nat n) = 0 - (of_nat k :: u64)"
    by (simp add: k)
  moreover have "unat (of_nat k :: u64) = k"
    using k assms by (simp add: unat_of_nat)
  then have "unat (0 - (of_nat k :: u64)) = 2 ^ 64 - k"
    using k by (simp only: unat_sub_if') simp
  ultimately have "\<not> unat ((a + of_nat i) - (a + of_nat n)) < length bs"
    using k assms by simp
  with i assms show "mem_read (mem_write m (a + of_nat n) bs) a n ! i = mem_read m a n ! i"
    by (simp add: mem_read_def mem_write_apply)
qed

section \<open>Physical memory manager: proofs\<close>

subsection \<open>Bits of the bitmap\<close>

lemma PMM_TOTAL_PAGES_val: "PMM_TOTAL_PAGES = 3584"
  by (simp add: PMM_TOTAL_PAGES_def PMM_MEMORY_SIZE_def PMM_PAGE_SIZE_def)

lemma PMM_BITMAP_SIZE_val: "PMM_BITMAP_SIZE = 448"
  by (simp add: PMM_BITMAP_SIZE_def PMM_TOTAL_PAGES_val)

lemma pmm_test_bit_iff: "pmm_test_bit bm p \<longleftrightarrow> bit (bm ! (p div 8)) (p mod 8)"
  by (simp add: pmm_test_bit_def bit_iff_and_push_bit_not_eq_0)

lemma div_mod_8_eq: "(q::nat) div 8 = p div 8 \<Longrightarrow> q mod 8 = p mod 8 \<Longrightarrow> q = p"
  by (metis div_mult_mod_eq)

lemma pmm_test_set_bit:
  assumes "p div 8 < length bm"
  shows "pmm_test_bit (pmm_set_bit p bm) q \<longleftrightarrow> q = p \<or> pmm_test_bit bm q"
proof (cases "q div 8 = p div 8")
  case True
  have "p mod 8 < 8" by simp
  with True assms show ?thesis
    by (auto simp: pmm_test_bit_iff pmm_set_bit_def bit_or_iff bit_exp_iff
        dest: div_mod_8_eq)
next
  case False
  then show ?thesis
    by (auto simp: pmm_test_bit_iff pmm_set_bit_def)
qed

lemma pmm_test_clear_bit:
  assumes "p div 8 < length bm"
  shows "pmm_test_bit (pmm_clear_bit p bm) q \<longleftrightarrow> q \<noteq> p \<and> pmm_test_bit bm q"
proof (cases "q div 8 = p div 8")
  case True
  have "p mod 8 < 8" by simp
  with True assms show ?thesis
    by (auto simp: pmm_test_bit_iff pmm_clear_bit_def bit_and_iff bit_not_iff bit_exp_iff
        dest: div_mod_8_eq bit_imp_le_length)
next
  case False
  then show ?thesis
    by (auto simp: pmm_test_bit_iff pmm_clear_bit_def)
qed

lemma length_pmm_set_bit [simp]: "length (pmm_set_bit p bm) = length bm"
  by (simp add: pmm_set_bit_def)

lemma length_pmm_clear_bit [simp]: "length (pmm_clear_bit p bm) = length bm"
  by (simp add: pmm_clear_bit_def)

lemma pmm_window_page:
  assumes "PMM_START_ADDR \<le> addr" "addr < PMM_START_ADDR + PMM_MEMORY_SIZE"
  shows "unat ((addr - PMM_START_ADDR) div PMM_PAGE_SIZE) = unat (addr - 0x200000) div 4096"
    and "unat ((addr - PMM_START_ADDR) div PMM_PAGE_SIZE) < PMM_TOTAL_PAGES"
proof -
  have a: "unat (addr - PMM_START_ADDR) = unat addr - 0x200000"
    using assms(1) by (simp add: PMM_START_ADDR_def unat_sub)
  have b: "unat addr < 0x1000000"
    using assms(2) by (simp add: PMM_START_ADDR_def PMM_MEMORY_SIZE_def word_less_nat_alt)
  show "unat ((addr - PMM_START_ADDR) div PMM_PAGE_SIZE) = unat (addr - 0x200000) div 4096"
    by (simp add: unat_div PMM_PAGE_SIZE_def PMM_START_ADDR_def)
  show "unat ((addr - PMM_START_ADDR) div PMM_PAGE_SIZE) < PMM_TOTAL_PAGES"
    using a b by (simp add: unat_div PMM_PAGE_SIZE_def PMM_TOTAL_PAGES_val)
qed



lemma pmm_first_free_Some:
  "pmm_first_free bm i = Some k \<Longrightarrow>
     i \<le> k \<and> k < PMM_TOTAL_PAGES \<and> \<not> pmm_test_bit bm k \<and> (\<forall>j. i \<le> j \<and> j < k \<longrightarrow> pmm_test_bit bm j)"
proof (induction bm i rule: pmm_first_free.induct)
  case (1 bm i)
  show ?case
  proof (cases "i < PMM_TOTAL_PAGES \<and> pmm_test_bit bm i")
    case True
    with "1.prems" have "pmm_first_free bm (i + 1) = Some k"
      by (subst (asm) pmm_first_free.simps) simp
    with "1.IH" True have ih: "i + 1 \<le> k \<and> k < PMM_TOTAL_PAGES \<and> \<not> pmm_test_bit bm k
        \<and> (\<forall>j. i + 1 \<le> j \<and> j < k \<longrightarrow> pmm_test_bit bm j)"
      by simp
    have "pmm_test_bit bm j" if "i \<le> j" "j < k" for j
      using that ih True by (cases "j = i") auto
    with ih show ?thesis by auto
  next
    case False
    with "1.prems" show ?thesis
      by (subst (asm) pmm_first_free.simps) (auto split: if_splits)
  qed
qed

lemma pmm_first_free_None:
  "pmm_first_free bm i = None \<Longrightarrow> (\<forall>j. i \<le> j \<and> j < PMM_TOTAL_PAGES \<longrightarrow> pmm_test_bit bm j)"
proof (induction bm i rule: pmm_first_free.induct)
  case (1 bm i)
  show ?case
  proof (cases "i < PMM_TOTAL_PAGES")
    case True
    with "1.prems" have t: "pmm_test_bit bm i" and r: "pmm_first_free bm (i + 1) = None"
      by (subst (asm) pmm_first_free.simps, simp split: if_splits)+
    from "1.IH" True t r have ih: "\<forall>j. i + 1 \<le> j \<and> j < PMM_TOTAL_PAGES \<longrightarrow> pmm_test_bit bm j"
      by simp
    show ?thesis
    proof (intro allI impI)
      fix j assume "i \<le> j \<and> j < PMM_TOTAL_PAGES"
      then show "pmm_test_bit bm j" using ih t by (cases "j = i") auto
    qed
  next
    case False
    then show ?thesis by auto
  qed
qed

lemma pmm_clear_bits_le: "pmm_clear_bits bm \<le> PMM_TOTAL_PAGES"
proof -
  have "{i. i < PMM_TOTAL_PAGES \<and> \<not> pmm_test_bit bm i} \<subseteq> {..<PMM_TOTAL_PAGES}" by auto
  then have "card {i. i < PMM_TOTAL_PAGES \<and> \<not> pmm_test_bit bm i} \<le> card {..<PMM_TOTAL_PAGES}"
    by (intro card_mono) auto
  then show ?thesis by (simp add: pmm_clear_bits_def)
qed

lemma finite_pmm_clear_set: "finite {i. i < PMM_TOTAL_PAGES \<and> \<not> pmm_test_bit bm i}"
  by simp

lemma length_fold_pmm_set_bit [simp]: "length (fold pmm_set_bit ps bm) = length bm"
  by (induction ps arbitrary: bm) simp_all

lemma pmm_test_fold_set_bit:
  assumes "st + n \<le> 8 * length bm"
  shows "pmm_test_bit (fold pmm_set_bit [st ..< st + n] bm) q \<longleftrightarrow> (st \<le> q \<and> q < st + n) \<or> pmm_test_bit bm q"
  using assms
proof (induction n)
  case 0
  then show ?case by auto
next
  case (Suc n)
  then have "(st + n) div 8 < length bm" by auto
  then show ?case
    using Suc by (auto simp: pmm_test_set_bit)
qed


lemma pmm_clear_bits_set_bit:
  assumes "p div 8 < length bm" "p < PMM_TOTAL_PAGES" "\<not> pmm_test_bit bm p"
  shows "pmm_clear_bits (pmm_set_bit p bm) = pmm_clear_bits bm - 1" "0 < pmm_clear_bits bm"
proof -
  let ?A = "{i. i < PMM_TOTAL_PAGES \<and> \<not> pmm_test_bit bm i}"
  have "{i. i < PMM_TOTAL_PAGES \<and> \<not> pmm_test_bit (pmm_set_bit p bm) i} = ?A - {p}"
    using assms by (auto simp: pmm_test_set_bit)
  then show "pmm_clear_bits (pmm_set_bit p bm) = pmm_clear_bits bm - 1"
    using assms by (simp add: pmm_clear_bits_def)
  have "p \<in> ?A" using assms by simp
  then have "?A \<noteq> {}" by blast
  then have "0 < card ?A" by (simp only: card_gt_0_iff finite_pmm_clear_set simp_thms)
  then show "0 < pmm_clear_bits bm" by (simp only: pmm_clear_bits_def)
qed

lemma pmm_clear_bits_clear_bit:
  assumes "p div 8 < length bm" "p < PMM_TOTAL_PAGES" "pmm_test_bit bm p"
  shows "pmm_clear_bits (pmm_clear_bit p bm) = pmm_clear_bits bm + 1"
proof -
  let ?A = "{i. i < PMM_TOTAL_PAGES \<and> \<not> pmm_test_bit bm i}"
  have "{i. i < PMM_TOTAL_PAGES \<and> \<not> pmm_test_bit (pmm_clear_bit p bm) i} = insert p ?A"
    using assms by (auto simp: pmm_test_clear_bit)
  moreover have "p \<notin> ?A" using assms by simp
  ultimately show ?thesis
    by (simp add: pmm_clear_bits_def)
qed

lemma pmm_clear_bits_fold_set_bit:
  assumes "st + n \<le> 8 * length bm" "pmm_run bm st n"
  shows "pmm_clear_bits (fold pmm_set_bit [st ..< st + n] bm) = pmm_clear_bits bm - n" "n \<le> pmm_clear_bits bm"
proof -
  let ?A = "{i. i < PMM_TOTAL_PAGES \<and> \<not> pmm_test_bit bm i}"
  have sub: "{st ..< st + n} \<subseteq> ?A"
    using assms(2) by (auto simp: pmm_run_def)
  have "{i. i < PMM_TOTAL_PAGES \<and> \<not> pmm_test_bit (fold pmm_set_bit [st ..< st + n] bm) i} = ?A - {st ..< st + n}"
    using assms(1) by (auto simp: pmm_test_fold_set_bit)
  then have "pmm_clear_bits (fold pmm_set_bit [st ..< st + n] bm) = card (?A - {st ..< st + n})"
    by (simp add: pmm_clear_bits_def)
  also have "\<dots> = card ?A - card {st ..< st + n}"
    using sub by (intro card_Diff_subset) auto
  finally show "pmm_clear_bits (fold pmm_set_bit [st ..< st + n] bm) = pmm_clear_bits bm - n"
    by (simp add: pmm_clear_bits_def)
  have "card {st ..< st + n} \<le> card ?A"
    using sub by (intro card_mono) auto
  then show "n \<le> pmm_clear_bits bm" by (simp add: pmm_clear_bits_def)
qed

lemma pmm_find_run_spec:
  assumes "c < unat count" "c \<le> i"
    and "\<forall>j. i - c \<le> j \<and> j < i \<longrightarrow> \<not> pmm_test_bit bm j"
    and "0 < c \<longrightarrow> start = i - c"
    and "\<forall>j < i - c. \<not> pmm_run bm j (unat count)"
  shows "case pmm_find_run bm count c start i of
           None \<Rightarrow> (\<forall>j. \<not> pmm_run bm j (unat count))
         | Some st \<Rightarrow> pmm_run bm st (unat count) \<and> (\<forall>j < st. \<not> pmm_run bm j (unat count))"
  using assms
proof (induction bm count c start i rule: pmm_find_run.induct)
  case (1 bm count c start i)
  let ?n = "unat count"
  show ?case
  proof (cases "i < PMM_TOTAL_PAGES")
    case False
    have "\<not> pmm_run bm j ?n" for j
    proof (cases "j < i - c")
      case True
      with "1.prems" show ?thesis by simp
    next
      case F: False
      with False "1.prems"(1,2) show ?thesis by (auto simp: pmm_run_def)
    qed
    with False show ?thesis
      by (subst pmm_find_run.simps) simp
  next
    case inb: True
    show ?thesis
    proof (cases "pmm_test_bit bm i")
      case used: True
      have no: "\<not> pmm_run bm j ?n" if "j < i + 1" for j
      proof (cases "j < i - c")
        case True
        with "1.prems" show ?thesis by simp
      next
        case F: False
        show ?thesis
        proof
          assume r: "pmm_run bm j ?n"
          have "j + ?n \<le> i \<or> (j \<le> i \<and> i < j + ?n)" using that by auto
          then show False
          proof
            assume "j + ?n \<le> i"
            with F "1.prems"(1) show False by auto
          next
            assume "j \<le> i \<and> i < j + ?n"
            with r used show False by (auto simp: pmm_run_def)
          qed
        qed
      qed
      have "case pmm_find_run bm count 0 start (i + 1) of
           None \<Rightarrow> (\<forall>j. \<not> pmm_run bm j ?n)
         | Some st \<Rightarrow> pmm_run bm st ?n \<and> (\<forall>j < st. \<not> pmm_run bm j ?n)"
      proof (rule "1.IH"(2))
        show "i < PMM_TOTAL_PAGES" by fact
        show "\<not> \<not> pmm_test_bit bm i" using used by simp
        show "0 < ?n" using "1.prems"(1) by simp
        show "0 \<le> i + 1" by simp
        show "\<forall>j. i + 1 - 0 \<le> j \<and> j < i + 1 \<longrightarrow> \<not> pmm_test_bit bm j" by auto
        show "0 < (0::nat) \<longrightarrow> start = i + 1 - 0" by simp
        show "\<forall>j < i + 1 - 0. \<not> pmm_run bm j ?n" using no by simp
      qed
      with inb used show ?thesis
        by (subst pmm_find_run.simps) simp
    next
      case free: False
      have st: "(if c = 0 then i else start) = i - c"
        using "1.prems"(4) by auto
      have clr: "\<forall>j. i - c \<le> j \<and> j < i + 1 \<longrightarrow> \<not> pmm_test_bit bm j"
      proof (intro allI impI)
        fix j assume "i - c \<le> j \<and> j < i + 1"
        then show "\<not> pmm_test_bit bm j"
          using "1.prems"(3) free by (cases "j = i") auto
      qed
      show ?thesis
      proof (cases "c + 1 = ?n")
        case True
        have "pmm_run bm (i - c) ?n"
          using True clr inb "1.prems"(2) by (auto simp: pmm_run_def)
        with True inb free st "1.prems"(5) show ?thesis
          by (subst pmm_find_run.simps) (simp add: Let_def)
      next
        case False
        have "case pmm_find_run bm count (c + 1) (if c = 0 then i else start) (i + 1) of
           None \<Rightarrow> (\<forall>j. \<not> pmm_run bm j ?n)
         | Some st \<Rightarrow> pmm_run bm st ?n \<and> (\<forall>j < st. \<not> pmm_run bm j ?n)"
        proof (rule "1.IH"(1) [OF inb free refl refl])
          show "c + 1 \<noteq> ?n" by fact
          show "c + 1 < ?n" using False "1.prems"(1) by simp
          show "c + 1 \<le> i + 1" using "1.prems"(2) by simp
          show "\<forall>j. i + 1 - (c + 1) \<le> j \<and> j < i + 1 \<longrightarrow> \<not> pmm_test_bit bm j"
            using clr by simp
          show "0 < c + 1 \<longrightarrow> (if c = 0 then i else start) = i + 1 - (c + 1)"
            using st by simp
          show "\<forall>j < i + 1 - (c + 1). \<not> pmm_run bm j ?n"
            using "1.prems"(5) by simp
        qed
        with False inb free st show ?thesis
          by (subst pmm_find_run.simps) (simp add: Let_def)
      qed
    qed
  qed
qed

lemma pmm_frame_addr:
  assumes "i < PMM_TOTAL_PAGES"
  shows "unat (PMM_START_ADDR + of_nat i * PMM_PAGE_SIZE) = 0x200000 + i * 4096"
proof -
  have i: "i < 3584" using assms by (simp add: PMM_TOTAL_PAGES_val)
  have "PMM_START_ADDR + of_nat i * PMM_PAGE_SIZE = (of_nat (0x200000 + i * 4096) :: u64)"
    by (simp add: PMM_START_ADDR_def PMM_PAGE_SIZE_def)
  moreover have "unat (of_nat (0x200000 + i * 4096) :: u64) = 0x200000 + i * 4096"
    using i by (subst unat_of_nat) simp
  ultimately show ?thesis by simp
qed

lemma pmm_frame_addr_props:
  assumes "i < PMM_TOTAL_PAGES"
  defines "addr \<equiv> PMM_START_ADDR + of_nat i * PMM_PAGE_SIZE"
  shows "addr \<noteq> 0" "unat addr mod 4096 = 0" "0x200000 \<le> addr" "addr < 0x200000 + 14 * 1024 * 1024"
    "PMM_START_ADDR \<le> addr" "addr < PMM_START_ADDR + PMM_MEMORY_SIZE"
    "unat ((addr - PMM_START_ADDR) div PMM_PAGE_SIZE) = i"
proof -
  have i: "i < 3584" using assms by (simp add: PMM_TOTAL_PAGES_val)
  have u: "unat addr = 0x200000 + i * 4096"
    unfolding addr_def by (rule pmm_frame_addr [OF assms(1)])
  show "addr \<noteq> 0" using u by auto
  show "unat addr mod 4096 = 0" using u by simp
  show a: "0x200000 \<le> addr" using u by (simp add: word_le_nat_alt)
  show b: "addr < 0x200000 + 14 * 1024 * 1024" using u i by (simp add: word_less_nat_alt)
  show "PMM_START_ADDR \<le> addr" using a by (simp add: PMM_START_ADDR_def)
  show "addr < PMM_START_ADDR + PMM_MEMORY_SIZE" using b by (simp add: PMM_START_ADDR_def PMM_MEMORY_SIZE_def)
  have "unat (addr - PMM_START_ADDR) = i * 4096"
    using a u by (simp add: PMM_START_ADDR_def unat_sub)
  then show "unat ((addr - PMM_START_ADDR) div PMM_PAGE_SIZE) = i"
    by (simp add: unat_div PMM_PAGE_SIZE_def)
qed

lemma pmm_inv_init: "pmm_inv pmm_init"
proof -
  have "\<not> pmm_test_bit (replicate 448 0) i" if "i < 3584" for i
    using that by (simp add: pmm_test_bit_def)
  then have "{i. i < 3584 \<and> \<not> pmm_test_bit (replicate 448 0) i} = {..<3584}" by auto
  then have "pmm_clear_bits (replicate 448 0) = 3584"
    by (simp add: pmm_clear_bits_def PMM_TOTAL_PAGES_val)
  then show ?thesis
    by (simp add: pmm_inv_def pmm_init_def PMM_BITMAP_SIZE_val PMM_TOTAL_PAGES_val)
qed

lemma pmm_inv_index:
  assumes "pmm_inv s" "i < PMM_TOTAL_PAGES"
  shows "i div 8 < length (pmm_bitmap s)"
  using assms by (simp add: pmm_inv_def PMM_BITMAP_SIZE_val PMM_TOTAL_PAGES_val)

lemma pmm_inv_count_bound:
  assumes "pmm_inv s"
  shows "unat (pmm_free_count s) \<le> 3584"
  using assms pmm_clear_bits_le [of "pmm_bitmap s"] by (simp add: pmm_inv_def PMM_TOTAL_PAGES_val)

lemma pmm_alloc_page_cases:
  "pmm_alloc_page s = (0, s) \<or>
   (\<exists>i. pmm_free_count s \<noteq> 0 \<and> pmm_first_free (pmm_bitmap s) 0 = Some i \<and>
        pmm_alloc_page s = (PMM_START_ADDR + of_nat i * PMM_PAGE_SIZE,
           s\<lparr> pmm_bitmap := pmm_set_bit i (pmm_bitmap s), pmm_free_count := pmm_free_count s - 1 \<rparr>))"
  by (auto simp: pmm_alloc_page_def split: option.splits)

lemma pmm_inv_alloc_page:
  assumes "pmm_inv s"
  shows "pmm_inv (snd (pmm_alloc_page s))"
  using pmm_alloc_page_cases [of s]
proof
  assume "pmm_alloc_page s = (0, s)"
  with assms show ?thesis by simp
next
  assume "\<exists>i. pmm_free_count s \<noteq> 0 \<and> pmm_first_free (pmm_bitmap s) 0 = Some i \<and>
        pmm_alloc_page s = (PMM_START_ADDR + of_nat i * PMM_PAGE_SIZE,
           s\<lparr> pmm_bitmap := pmm_set_bit i (pmm_bitmap s), pmm_free_count := pmm_free_count s - 1 \<rparr>)"
  then obtain i where nz: "pmm_free_count s \<noteq> 0" and ff: "pmm_first_free (pmm_bitmap s) 0 = Some i"
    and eq: "pmm_alloc_page s = (PMM_START_ADDR + of_nat i * PMM_PAGE_SIZE,
           s\<lparr> pmm_bitmap := pmm_set_bit i (pmm_bitmap s), pmm_free_count := pmm_free_count s - 1 \<rparr>)"
    by blast
  from pmm_first_free_Some [OF ff] have i: "i < PMM_TOTAL_PAGES" and fr: "\<not> pmm_test_bit (pmm_bitmap s) i"
    by simp_all
  have "unat (pmm_free_count s - 1) = unat (pmm_free_count s) - 1"
    using nz by (simp add: unat_minus_one)
  then show ?thesis
    using assms pmm_clear_bits_set_bit(1) [OF pmm_inv_index [OF assms i] i fr]
    by (simp add: eq pmm_inv_def)
qed

lemma pmm_inv_free_page:
  assumes "pmm_inv s"
  shows "pmm_inv (pmm_free_page s addr)"
proof (cases "PMM_START_ADDR \<le> addr \<and> addr < PMM_START_ADDR + PMM_MEMORY_SIZE
              \<and> pmm_test_bit (pmm_bitmap s) (unat ((addr - PMM_START_ADDR) div PMM_PAGE_SIZE))")
  case True
  let ?p = "unat ((addr - PMM_START_ADDR) div PMM_PAGE_SIZE)"
  have p: "?p < PMM_TOTAL_PAGES" using True pmm_window_page(2) by simp
  have eq: "pmm_free_page s addr = s\<lparr> pmm_bitmap := pmm_clear_bit ?p (pmm_bitmap s),
                      pmm_free_count := pmm_free_count s + 1 \<rparr>"
    using True by (simp add: pmm_free_page_def Let_def not_less [symmetric])
  have "unat (pmm_free_count s) + 1 < 2 ^ 64"
    using pmm_inv_count_bound [OF assms] by simp
  then have "unat (pmm_free_count s + 1) = unat (pmm_free_count s) + 1"
    by (simp add: unat_word_ariths)
  then show ?thesis
    using assms pmm_clear_bits_clear_bit [OF pmm_inv_index [OF assms p] p] True
    by (simp add: eq pmm_inv_def)
next
  case False
  then have "pmm_free_page s addr = s"
    by (auto simp: pmm_free_page_def Let_def)
  with assms show ?thesis by simp
qed

lemma pmm_inv_free_pages_loop:
  "pmm_inv s \<Longrightarrow> pmm_inv (pmm_free_pages_loop s addr i n)"
  by (induction n arbitrary: s i) (simp_all add: pmm_inv_free_page)

lemma pmm_find_run_start:
  assumes "count \<noteq> 0"
  shows "case pmm_find_run bm count 0 0 0 of
           None \<Rightarrow> (\<forall>j. \<not> pmm_run bm j (unat count))
         | Some st \<Rightarrow> pmm_run bm st (unat count) \<and> (\<forall>j < st. \<not> pmm_run bm j (unat count))"
proof (rule pmm_find_run_spec)
  show "0 < unat count" using assms by (simp add: unat_gt_0)
qed simp_all

lemma pmm_inv_alloc_pages:
  assumes "pmm_inv s"
  shows "pmm_inv (snd (pmm_alloc_pages s count))"
proof (cases "count = 0 \<or> pmm_free_count s < count")
  case True
  with assms show ?thesis by (simp add: pmm_alloc_pages_def)
next
  case False
  then have nz: "count \<noteq> 0" and le: "count \<le> pmm_free_count s" by auto
  show ?thesis
  proof (cases "pmm_find_run (pmm_bitmap s) count 0 0 0")
    case None
    with assms show ?thesis by (simp add: pmm_alloc_pages_def)
  next
    case (Some st)
    with pmm_find_run_start [OF nz, of "pmm_bitmap s"] have run: "pmm_run (pmm_bitmap s) st (unat count)"
      by simp
    then have b: "st + unat count \<le> 8 * length (pmm_bitmap s)"
      using assms by (simp add: pmm_run_def pmm_inv_def PMM_BITMAP_SIZE_val PMM_TOTAL_PAGES_val)
    have "unat (pmm_free_count s - count) = unat (pmm_free_count s) - unat count"
      using le by (simp add: unat_sub)
    then show ?thesis
      using assms Some False pmm_clear_bits_fold_set_bit(1) [OF b run]
      by (simp add: pmm_alloc_pages_def pmm_inv_def)
  qed
qed

lemma pmm_reachable_inv: "pmm_reachable s \<Longrightarrow> pmm_inv s"
proof (induction rule: pmm_reachable.induct)
  case reach_init
  show ?case by (rule pmm_inv_init)
next
  case (reach_alloc_page s)
  then show ?case by (simp add: pmm_inv_alloc_page)
next
  case (reach_alloc_pages s count)
  then show ?case by (simp add: pmm_inv_alloc_pages)
next
  case (reach_free_page s addr)
  then show ?case by (simp add: pmm_inv_free_page)
next
  case (reach_free_pages s addr count)
  then show ?case by (simp add: pmm_free_pages_def pmm_inv_free_pages_loop)
qed

lemma pmm_first_free_init: "pmm_first_free (pmm_bitmap pmm_init) 0 = Some 0"
  by (subst pmm_first_free.simps)
     (simp add: pmm_init_def PMM_TOTAL_PAGES_val PMM_BITMAP_SIZE_val pmm_test_bit_def)

lemma pmm_alloc_page_init:
  "pmm_alloc_page pmm_init =
     (0x200000, \<lparr> pmm_bitmap = (replicate 448 0)[0 := 1], pmm_free_count = 3583, pmm_total_pages = 3584 \<rparr>)"
  using pmm_first_free_init
  by (simp add: pmm_alloc_page_def pmm_init_def PMM_TOTAL_PAGES_val PMM_BITMAP_SIZE_val
      pmm_set_bit_def PMM_START_ADDR_def)

lemma pmm_alloc_page_result:
  assumes inv: "pmm_inv s" and ap: "pmm_alloc_page s = (addr, s')" and nn: "addr \<noteq> 0"
  shows "unat addr mod 4096 = 0 \<and> 0x200000 \<le> addr \<and> addr < 0x200000 + 14 * 1024 * 1024
         \<and> pmm_free_count s' = pmm_free_count s - 1
         \<and> pmm_free_count (pmm_free_page s' addr) = pmm_free_count s"
  using pmm_alloc_page_cases [of s]
proof
  assume "pmm_alloc_page s = (0, s)"
  with ap nn show ?thesis by simp
next
  assume "\<exists>i. pmm_free_count s \<noteq> 0 \<and> pmm_first_free (pmm_bitmap s) 0 = Some i \<and>
        pmm_alloc_page s = (PMM_START_ADDR + of_nat i * PMM_PAGE_SIZE,
           s\<lparr> pmm_bitmap := pmm_set_bit i (pmm_bitmap s), pmm_free_count := pmm_free_count s - 1 \<rparr>)"
  then obtain i where ff: "pmm_first_free (pmm_bitmap s) 0 = Some i"
    and eq: "pmm_alloc_page s = (PMM_START_ADDR + of_nat i * PMM_PAGE_SIZE,
           s\<lparr> pmm_bitmap := pmm_set_bit i (pmm_bitmap s), pmm_free_count := pmm_free_count s - 1 \<rparr>)"
    by blast
  from pmm_first_free_Some [OF ff] have i: "i < PMM_TOTAL_PAGES" by simp
  from ap eq have a: "addr = PMM_START_ADDR + of_nat i * PMM_PAGE_SIZE"
    and s': "s' = s\<lparr> pmm_bitmap := pmm_set_bit i (pmm_bitmap s), pmm_free_count := pmm_free_count s - 1 \<rparr>"
    by simp_all
  note fp = pmm_frame_addr_props [OF i, folded a]
  have set: "pmm_test_bit (pmm_bitmap s') i"
    by (simp add: s' pmm_test_set_bit [OF pmm_inv_index [OF inv i]])
  have "pmm_free_count (pmm_free_page s' addr) = pmm_free_count s' + 1"
    using fp(5,6) set by (simp add: pmm_free_page_def Let_def fp(7) not_less [symmetric])
  then show ?thesis
    using fp(2,3,4) by (simp add: s')
qed

text \<open>
  Claim C4.  In every state reached from \<open>pmm_init\<close> by allocations and releases, the
  number of cleared bits of the bitmap is the free count; every non-null address that
  \<open>pmm_alloc_page\<close> returns is a multiple of 4096 inside
  \<open>[0x200000, 0x200000 + 14 MiB)\<close>; and releasing that address at once brings the free
  count back to its value before the allocation.
\<close>

theorem pmm_allocator_invariants:
  assumes "pmm_reachable s"
  shows "pmm_clear_bits (pmm_bitmap s) = unat (pmm_get_free_pages s)
       \<and> (\<forall>addr s'. pmm_alloc_page s = (addr, s') \<and> addr \<noteq> 0 \<longrightarrow>
             unat addr mod 4096 = 0
           \<and> 0x200000 \<le> addr \<and> addr < 0x200000 + 14 * 1024 * 1024
           \<and> pmm_get_free_pages (pmm_free_page s' addr) = pmm_get_free_pages s)"
proof -
  have inv: "pmm_inv s" by (rule pmm_reachable_inv [OF assms])
  then have "pmm_clear_bits (pmm_bitmap s) = unat (pmm_get_free_pages s)"
    by (simp add: pmm_inv_def pmm_get_free_pages_def)
  moreover have "unat addr mod 4096 = 0
           \<and> 0x200000 \<le> addr \<and> addr < 0x200000 + 14 * 1024 * 1024
           \<and> pmm_get_free_pages (pmm_free_page s' addr) = pmm_get_free_pages s"
    if "pmm_alloc_page s = (addr, s') \<and> addr \<noteq> 0" for addr s'
    using pmm_alloc_page_result [OF inv, of addr s'] that
    by (simp add: pmm_get_free_pages_def)
  ultimately show ?thesis by blast
qed

theorem pmm_allocator_invariants_witness:
  "pmm_reachable (snd (pmm_alloc_page pmm_init))
   \<and> pmm_clear_bits (pmm_bitmap (snd (pmm_alloc_page pmm_init))) = 3583
   \<and> pmm_alloc_page pmm_init = (0x200000, snd (pmm_alloc_page pmm_init))
   \<and> (0x200000 :: u64) \<noteq> 0
   \<and> pmm_get_free_pages (pmm_free_page (snd (pmm_alloc_page pmm_init)) 0x200000) = 3584"
proof -
  have r0: "pmm_reachable pmm_init" by (rule reach_init)
  have r1: "pmm_reachable (snd (pmm_alloc_page pmm_init))" by (rule reach_alloc_page [OF r0])
  have e: "pmm_alloc_page pmm_init = (0x200000, snd (pmm_alloc_page pmm_init))"
    by (simp add: pmm_alloc_page_init)
  have g: "pmm_get_free_pages pmm_init = 3584"
    by (simp add: pmm_get_free_pages_def pmm_init_def PMM_TOTAL_PAGES_val)
  have c: "unat (pmm_get_free_pages (snd (pmm_alloc_page pmm_init))) = 3583"
    by (simp add: pmm_get_free_pages_def pmm_alloc_page_init)
  from pmm_allocator_invariants [OF r1] c
  have "pmm_clear_bits (pmm_bitmap (snd (pmm_alloc_page pmm_init))) = 3583" by simp
  moreover have "pmm_get_free_pages (pmm_free_page (snd (pmm_alloc_page pmm_init)) 0x200000) = 3584"
    using pmm_allocator_invariants [OF r0, THEN conjunct2, rule_format,
        of "0x200000" "snd (pmm_alloc_page pmm_init)"] e g
    by simp
  ultimately show ?thesis using r1 e by simp
qed

text \<open>
  Claim C6.  \<open>pmm_alloc_pages s 0\<close> is null.  When the bitmap holds no run of \<open>n\<close>
  contiguous free frames the call returns null and the state is the one before the call.
  When a run exists (and \<open>n\<close> is not 0) the call returns the address of the first
  frame of the first such run, sets the bits of exactly these \<open>n\<close> frames and lowers
  the free count by \<open>n\<close>.  The state is any one in which the counter agrees with the
  bitmap (\<open>pmm_inv\<close>), as in every state the allocator reaches.
\<close>

theorem pmm_alloc_pages_contiguous:
  assumes "pmm_inv s"
  shows "pmm_alloc_pages s 0 = (0, s)
       \<and> ((\<forall>st. \<not> pmm_run (pmm_bitmap s) st (unat n)) \<longrightarrow> pmm_alloc_pages s n = (0, s))
       \<and> (n \<noteq> 0 \<and> (\<exists>st. pmm_run (pmm_bitmap s) st (unat n)) \<longrightarrow>
            (\<exists>st. pmm_run (pmm_bitmap s) st (unat n)
                \<and> (\<forall>j < st. \<not> pmm_run (pmm_bitmap s) j (unat n))
                \<and> fst (pmm_alloc_pages s n) = 0x200000 + of_nat st * 4096
                \<and> fst (pmm_alloc_pages s n) \<noteq> 0
                \<and> (\<forall>q. pmm_test_bit (pmm_bitmap (snd (pmm_alloc_pages s n))) q
                        \<longleftrightarrow> (st \<le> q \<and> q < st + unat n) \<or> pmm_test_bit (pmm_bitmap s) q)
                \<and> pmm_free_count (snd (pmm_alloc_pages s n)) = pmm_free_count s - n))"
proof (intro conjI impI)
  show "pmm_alloc_pages s 0 = (0, s)"
    by (simp add: pmm_alloc_pages_def)
next
  assume no: "\<forall>st. \<not> pmm_run (pmm_bitmap s) st (unat n)"
  show "pmm_alloc_pages s n = (0, s)"
  proof (cases "n = 0")
    case True
    then show ?thesis by (simp add: pmm_alloc_pages_def)
  next
    case False
    from pmm_find_run_start [OF False, of "pmm_bitmap s"] no
    have "pmm_find_run (pmm_bitmap s) n 0 0 0 = None"
      by (cases "pmm_find_run (pmm_bitmap s) n 0 0 0") auto
    then show ?thesis by (simp add: pmm_alloc_pages_def)
  qed
next
  assume a: "n \<noteq> 0 \<and> (\<exists>st. pmm_run (pmm_bitmap s) st (unat n))"
  then have nz: "n \<noteq> 0" and "\<exists>st. pmm_run (pmm_bitmap s) st (unat n)" by auto
  then obtain st0 where r0: "pmm_run (pmm_bitmap s) st0 (unat n)" by blast
  have b0: "st0 + unat n \<le> 8 * length (pmm_bitmap s)"
    using r0 assms by (simp add: pmm_run_def pmm_inv_def PMM_BITMAP_SIZE_val PMM_TOTAL_PAGES_val)
  have "unat n \<le> unat (pmm_free_count s)"
    using pmm_clear_bits_fold_set_bit(2) [OF b0 r0] assms by (simp add: pmm_inv_def)
  then have le: "\<not> pmm_free_count s < n" by (simp add: word_less_nat_alt)
  from pmm_find_run_start [OF nz, of "pmm_bitmap s"] r0
  obtain st where fr: "pmm_find_run (pmm_bitmap s) n 0 0 0 = Some st"
    and run: "pmm_run (pmm_bitmap s) st (unat n)"
    and first: "\<forall>j < st. \<not> pmm_run (pmm_bitmap s) j (unat n)"
    by (cases "pmm_find_run (pmm_bitmap s) n 0 0 0") auto
  have eq: "pmm_alloc_pages s n = (PMM_START_ADDR + of_nat st * PMM_PAGE_SIZE,
                s\<lparr> pmm_bitmap := fold pmm_set_bit [st ..< st + unat n] (pmm_bitmap s),
                   pmm_free_count := pmm_free_count s - n \<rparr>)"
    using nz le fr by (simp add: pmm_alloc_pages_def)
  have b: "st + unat n \<le> 8 * length (pmm_bitmap s)"
    using run assms by (simp add: pmm_run_def pmm_inv_def PMM_BITMAP_SIZE_val PMM_TOTAL_PAGES_val)
  have "0 < unat n" using nz by (simp add: unat_gt_0)
  then have stb: "st < PMM_TOTAL_PAGES" using run by (simp add: pmm_run_def)
  have nn: "PMM_START_ADDR + of_nat st * PMM_PAGE_SIZE \<noteq> 0"
    by (rule pmm_frame_addr_props(1) [OF stb])
  show "\<exists>st. pmm_run (pmm_bitmap s) st (unat n)
                \<and> (\<forall>j < st. \<not> pmm_run (pmm_bitmap s) j (unat n))
                \<and> fst (pmm_alloc_pages s n) = 0x200000 + of_nat st * 4096
                \<and> fst (pmm_alloc_pages s n) \<noteq> 0
                \<and> (\<forall>q. pmm_test_bit (pmm_bitmap (snd (pmm_alloc_pages s n))) q
                        \<longleftrightarrow> (st \<le> q \<and> q < st + unat n) \<or> pmm_test_bit (pmm_bitmap s) q)
                \<and> pmm_free_count (snd (pmm_alloc_pages s n)) = pmm_free_count s - n"
  proof (intro exI [of _ st] conjI)
    show "pmm_run (pmm_bitmap s) st (unat n)" by fact
    show "\<forall>j < st. \<not> pmm_run (pmm_bitmap s) j (unat n)" by fact
    show "fst (pmm_alloc_pages s n) = 0x200000 + of_nat st * 4096"
      by (simp add: eq PMM_START_ADDR_def PMM_PAGE_SIZE_def)
    show "fst (pmm_alloc_pages s n) \<noteq> 0"
      using nn by (simp add: eq)
    show "\<forall>q. pmm_test_bit (pmm_bitmap (snd (pmm_alloc_pages s n))) q
                        \<longleftrightarrow> (st \<le> q \<and> q < st + unat n) \<or> pmm_test_bit (pmm_bitmap s) q"
      by (simp add: eq pmm_test_fold_set_bit [OF b])
    show "pmm_free_count (snd (pmm_alloc_pages s n)) = pmm_free_count s - n"
      by (simp add: eq)
  qed
qed

lemma pmm_run_init: "pmm_run (pmm_bitmap pmm_init) st n \<longleftrightarrow> st + n \<le> 3584"
proof -
  have "\<not> pmm_test_bit (replicate 448 0) j" if "j < 3584" for j
    using that by (simp add: pmm_test_bit_def)
  then show ?thesis
    by (auto simp: pmm_run_def pmm_init_def PMM_TOTAL_PAGES_val PMM_BITMAP_SIZE_val)
qed

theorem pmm_alloc_pages_contiguous_witness:
  "pmm_inv pmm_init \<and> (4::u64) \<noteq> 0
   \<and> pmm_run (pmm_bitmap pmm_init) 0 (unat (4::u64))
   \<and> fst (pmm_alloc_pages pmm_init 4) = 0x200000
   \<and> pmm_free_count (snd (pmm_alloc_pages pmm_init 4)) = 3580
   \<and> (\<forall>st. \<not> pmm_run (pmm_bitmap pmm_init) st (unat (3585::u64)))
   \<and> pmm_alloc_pages pmm_init 3585 = (0, pmm_init)"
proof -
  have r: "pmm_run (pmm_bitmap pmm_init) 0 (unat (4::u64))"
    by (simp add: pmm_run_init)
  have nr: "\<forall>st. \<not> pmm_run (pmm_bitmap pmm_init) st (unat (3585::u64))"
    by (simp add: pmm_run_init)
  from pmm_alloc_pages_contiguous [OF pmm_inv_init, of 4] r
  obtain st where first: "\<forall>j < st. \<not> pmm_run (pmm_bitmap pmm_init) j (unat (4::u64))"
    and a: "fst (pmm_alloc_pages pmm_init 4) = 0x200000 + of_nat st * 4096"
    and c: "pmm_free_count (snd (pmm_alloc_pages pmm_init 4)) = pmm_free_count pmm_init - 4"
    by auto
  from first r have "st = 0" by (cases "st = 0") auto
  with a have a': "fst (pmm_alloc_pages pmm_init 4) = 0x200000" by simp
  from c have c': "pmm_free_count (snd (pmm_alloc_pages pmm_init 4)) = 3580"
    by (simp add: pmm_init_def PMM_TOTAL_PAGES_val)
  from pmm_alloc_pages_contiguous [OF pmm_inv_init, of 3585] nr
  have z: "pmm_alloc_pages pmm_init 3585 = (0, pmm_init)" by blast
  show ?thesis using pmm_inv_init r nr a' c' z by simp
qed

text \<open>
  Claim C10.  For an address inside \<open>[0x200000, 0x200000 + 14 MiB)\<close>, aligned or not,
  \<open>pmm_free_page\<close> leaves the bit of frame \<open>(addr - 0x200000) div 4096\<close> clear and
  every other bit as it was, and the free count is one higher exactly when that bit was
  set; for an address outside the window the state does not change.
\<close>

theorem pmm_free_page_window:
  assumes len: "length (pmm_bitmap s) = PMM_BITMAP_SIZE"
  shows "(0x200000 \<le> addr \<and> addr < 0x200000 + 14 * 1024 * 1024 \<longrightarrow>
            (let page = unat (addr - 0x200000) div 4096;
                 s' = pmm_free_page s addr
             in \<not> pmm_test_bit (pmm_bitmap s') page
              \<and> (\<forall>q. q \<noteq> page \<longrightarrow> pmm_test_bit (pmm_bitmap s') q = pmm_test_bit (pmm_bitmap s) q)
              \<and> pmm_free_count s' =
                  (if pmm_test_bit (pmm_bitmap s) page then pmm_free_count s + 1
                   else pmm_free_count s)))
       \<and> (\<not> (0x200000 \<le> addr \<and> addr < 0x200000 + 14 * 1024 * 1024) \<longrightarrow> pmm_free_page s addr = s)"
proof (intro conjI impI)
  assume w: "0x200000 \<le> addr \<and> addr < 0x200000 + 14 * 1024 * 1024"
  then have w1: "PMM_START_ADDR \<le> addr" and w2: "addr < PMM_START_ADDR + PMM_MEMORY_SIZE"
    by (simp_all add: PMM_START_ADDR_def PMM_MEMORY_SIZE_def)
  define page where "page = unat (addr - 0x200000) div 4096"
  have pg: "unat ((addr - PMM_START_ADDR) div PMM_PAGE_SIZE) = page"
    using pmm_window_page(1) [OF w1 w2] by (simp add: page_def)
  have "page < PMM_TOTAL_PAGES"
    using pmm_window_page(2) [OF w1 w2] pg by simp
  then have inb: "page div 8 < length (pmm_bitmap s)"
    by (simp add: len PMM_BITMAP_SIZE_val PMM_TOTAL_PAGES_val)
  have fp: "pmm_free_page s addr =
      (if pmm_test_bit (pmm_bitmap s) page
       then s\<lparr> pmm_bitmap := pmm_clear_bit page (pmm_bitmap s),
               pmm_free_count := pmm_free_count s + 1 \<rparr>
       else s)"
    using w1 w2 by (simp add: pmm_free_page_def pg Let_def not_less [symmetric])
  show "let page = unat (addr - 0x200000) div 4096; s' = pmm_free_page s addr
        in \<not> pmm_test_bit (pmm_bitmap s') page
         \<and> (\<forall>q. q \<noteq> page \<longrightarrow> pmm_test_bit (pmm_bitmap s') q = pmm_test_bit (pmm_bitmap s) q)
         \<and> pmm_free_count s' =
             (if pmm_test_bit (pmm_bitmap s) page then pmm_free_count s + 1
              else pmm_free_count s)"
    unfolding Let_def page_def [symmetric] fp
    by (simp add: pmm_test_clear_bit [OF inb])
next
  assume "\<not> (0x200000 \<le> addr \<and> addr < 0x200000 + 14 * 1024 * 1024)"
  then show "pmm_free_page s addr = s"
    by (auto simp: pmm_free_page_def PMM_START_ADDR_def PMM_MEMORY_SIZE_def not_le)
qed

theorem pmm_free_page_window_witness:
  "length (pmm_bitmap (snd (pmm_alloc_page pmm_init))) = PMM_BITMAP_SIZE
   \<and> (0x200000::u64) \<le> 0x200123 \<and> (0x200123::u64) < 0x200000 + 14 * 1024 * 1024
   \<and> unat ((0x200123::u64) - 0x200000) div 4096 = 0
   \<and> pmm_test_bit (pmm_bitmap (snd (pmm_alloc_page pmm_init))) 0
   \<and> \<not> pmm_test_bit (pmm_bitmap (pmm_free_page (snd (pmm_alloc_page pmm_init)) 0x200123)) 0
   \<and> pmm_free_count (pmm_free_page (snd (pmm_alloc_page pmm_init)) 0x200123) = 3584
   \<and> pmm_free_page (snd (pmm_alloc_page pmm_init)) 0x1000000 = snd (pmm_alloc_page pmm_init)"
proof -
  have len: "length (pmm_bitmap (snd (pmm_alloc_page pmm_init))) = PMM_BITMAP_SIZE"
    by (simp add: pmm_alloc_page_init PMM_BITMAP_SIZE_val)
  have tb: "pmm_test_bit (pmm_bitmap (snd (pmm_alloc_page pmm_init))) 0"
    by (simp add: pmm_alloc_page_init pmm_test_bit_def)
  show ?thesis
    using pmm_free_page_window [OF len, of "0x200123"] pmm_free_page_window [OF len, of "0x1000000"] len tb
    by (simp add: Let_def pmm_alloc_page_init)
qed

section \<open>Kernel heap: proofs\<close>

text \<open>Header fields at block addresses given as natural numbers.\<close>

lemma blk_same [simp]:
  "blk_size (set_size m b v) b = v"
  "blk_free (set_free m b w) b = w"
  "blk_next (set_next m b v) b = v"
  by (simp_all add: blk_size_def blk_free_def blk_next_def set_size_def set_free_def set_next_def
      load64_store64_same load32_store32_same)

lemma blk_write_other:
  fixes a w :: nat
  assumes "a + 24 \<le> w \<or> w + length bs \<le> a" "w + length bs \<le> 2 ^ 64" "a + 24 \<le> 2 ^ 64"
  shows "blk_size (mem_write m (of_nat w) bs) (of_nat a) = blk_size m (of_nat a)"
    and "blk_free (mem_write m (of_nat w) bs) (of_nat a) = blk_free m (of_nat a)"
    and "blk_next (mem_write m (of_nat w) bs) (of_nat a) = blk_next m (of_nat a)"
proof -
  show "blk_size (mem_write m (of_nat w) bs) (of_nat a) = blk_size m (of_nat a)"
    unfolding blk_size_def using assms by (intro load64_write_disjoint) auto
  have "load32 (mem_write m (of_nat w) bs) (of_nat (a + 8)) = load32 m (of_nat (a + 8))"
    using assms by (intro load32_write_disjoint) auto
  then show "blk_free (mem_write m (of_nat w) bs) (of_nat a) = blk_free m (of_nat a)"
    by (simp add: blk_free_def)
  have "load64 (mem_write m (of_nat w) bs) (of_nat (a + 16)) = load64 m (of_nat (a + 16))"
    using assms by (intro load64_write_disjoint) auto
  then show "blk_next (mem_write m (of_nat w) bs) (of_nat a) = blk_next m (of_nat a)"
    by (simp add: blk_next_def)
qed

text \<open>A store to a field of the header at \<open>b\<close> is a write inside \<open>[b, b + 24)\<close>.\<close>

lemma set_field_as_write:
  fixes b :: nat
  shows "set_size m (of_nat b) v = mem_write m (of_nat b) (le_bytes 8 v)"
    and "set_free m (of_nat b) w = mem_write m (of_nat (b + 8)) (le_bytes 4 w)"
    and "set_next m (of_nat b) v = mem_write m (of_nat (b + 16)) (le_bytes 8 v)"
  by (simp_all add: set_size_def set_free_def set_next_def store64_def store32_def)

lemma blk_set_other:
  fixes a b :: nat
  assumes "a + 24 \<le> b \<or> b + 24 \<le> a" "a + 24 \<le> 2 ^ 64" "b + 24 \<le> 2 ^ 64"
  shows "blk_size (set_size m (of_nat b) v) (of_nat a) = blk_size m (of_nat a)"
    and "blk_free (set_size m (of_nat b) v) (of_nat a) = blk_free m (of_nat a)"
    and "blk_next (set_size m (of_nat b) v) (of_nat a) = blk_next m (of_nat a)"
    and "blk_size (set_free m (of_nat b) w) (of_nat a) = blk_size m (of_nat a)"
    and "blk_free (set_free m (of_nat b) w) (of_nat a) = blk_free m (of_nat a)"
    and "blk_next (set_free m (of_nat b) w) (of_nat a) = blk_next m (of_nat a)"
    and "blk_size (set_next m (of_nat b) v) (of_nat a) = blk_size m (of_nat a)"
    and "blk_free (set_next m (of_nat b) v) (of_nat a) = blk_free m (of_nat a)"
    and "blk_next (set_next m (of_nat b) v) (of_nat a) = blk_next m (of_nat a)"
proof -
  have s: "a + 24 \<le> b \<or> b + length (le_bytes 8 v) \<le> a" "b + length (le_bytes 8 v) \<le> 2 ^ 64"
    and f: "a + 24 \<le> b + 8 \<or> b + 8 + length (le_bytes 4 w) \<le> a" "b + 8 + length (le_bytes 4 w) \<le> 2 ^ 64"
    and n: "a + 24 \<le> b + 16 \<or> b + 16 + length (le_bytes 8 v) \<le> a" "b + 16 + length (le_bytes 8 v) \<le> 2 ^ 64"
    using assms by auto
  note ws = blk_write_other [OF s assms(2), of m]
  note wf = blk_write_other [OF f assms(2), of m]
  note wn = blk_write_other [OF n assms(2), of m]
  show "blk_size (set_size m (of_nat b) v) (of_nat a) = blk_size m (of_nat a)"
    and "blk_free (set_size m (of_nat b) v) (of_nat a) = blk_free m (of_nat a)"
    and "blk_next (set_size m (of_nat b) v) (of_nat a) = blk_next m (of_nat a)"
    using ws unfolding set_field_as_write by blast+
  show "blk_size (set_free m (of_nat b) w) (of_nat a) = blk_size m (of_nat a)"
    and "blk_free (set_free m (of_nat b) w) (of_nat a) = blk_free m (of_nat a)"
    and "blk_next (set_free m (of_nat b) w) (of_nat a) = blk_next m (of_nat a)"
    using wf unfolding set_field_as_write by blast+
  show "blk_size (set_next m (of_nat b) v) (of_nat a) = blk_size m (of_nat a)"
    and "blk_free (set_next m (of_nat b) v) (of_nat a) = blk_free m (of_nat a)"
    and "blk_next (set_next m (of_nat b) v) (of_nat a) = blk_next m (of_nat a)"
    using wn unfolding set_field_as_write by blast+
qed

lemma blk_set_same_block:
  fixes b :: nat
  assumes "b + 24 \<le> 2 ^ 64"
  shows "blk_free (set_size m (of_nat b) v) (of_nat b) = blk_free m (of_nat b)"
    and "blk_next (set_size m (of_nat b) v) (of_nat b) = blk_next m (of_nat b)"
    and "blk_size (set_free m (of_nat b) w) (of_nat b) = blk_size m (of_nat b)"
    and "blk_next (set_free m (of_nat b) w) (of_nat b) = blk_next m (of_nat b)"
    and "blk_size (set_next m (of_nat b) v) (of_nat b) = blk_size m (of_nat b)"
    and "blk_free (set_next m (of_nat b) v) (of_nat b) = blk_free m (of_nat b)"
proof -
  have f: "blk_free m' (of_nat b) = load32 m' (of_nat (b + 8))"
    and n: "blk_next m' (of_nat b) = load64 m' (of_nat (b + 16))" for m'
    by (simp_all add: blk_free_def blk_next_def)
  show "blk_free (set_size m (of_nat b) v) (of_nat b) = blk_free m (of_nat b)"
    unfolding f set_field_as_write using assms by (intro load32_write_disjoint) auto
  show "blk_next (set_size m (of_nat b) v) (of_nat b) = blk_next m (of_nat b)"
    unfolding n set_field_as_write using assms by (intro load64_write_disjoint) auto
  show "blk_size (set_free m (of_nat b) w) (of_nat b) = blk_size m (of_nat b)"
    unfolding blk_size_def set_field_as_write using assms by (intro load64_write_disjoint) auto
  show "blk_next (set_free m (of_nat b) w) (of_nat b) = blk_next m (of_nat b)"
    unfolding n set_field_as_write using assms by (intro load64_write_disjoint) auto
  show "blk_size (set_next m (of_nat b) v) (of_nat b) = blk_size m (of_nat b)"
    unfolding blk_size_def set_field_as_write using assms by (intro load64_write_disjoint) auto
  show "blk_free (set_next m (of_nat b) v) (of_nat b) = blk_free m (of_nat b)"
    unfolding f set_field_as_write using assms by (intro load32_write_disjoint) auto
qed

lemma heap_extent_append [simp]: "heap_extent (xs @ ys) = heap_extent xs + heap_extent ys"
  by (induction xs) auto

lemma chain_append:
  "chain m a (xs @ ys) z \<longleftrightarrow>
     chain m a xs (if ys = [] then z else of_nat (a + heap_extent xs))
     \<and> chain m (a + heap_extent xs) ys z"
proof (induction xs arbitrary: a)
  case Nil
  show ?case by simp
next
  case (Cons b xs)
  obtain sz fr where b: "b = (sz, fr)" by (cases b)
  show ?case
    unfolding b by (cases "xs = []") (auto simp: Cons.IH add.assoc)
qed

lemma chain_frame_write:
  assumes "chain m a bs z"
    and "a + heap_extent bs \<le> w \<or> w + length ws \<le> a"
    and "w + length ws \<le> 2 ^ 64" "a + heap_extent bs \<le> 2 ^ 64"
  shows "chain (mem_write m (of_nat w) ws) a bs z"
  using assms
proof (induction bs arbitrary: a)
  case Nil
  show ?case by simp
next
  case (Cons b bs)
  obtain sz fr where b: "b = (sz, fr)" by (cases b)
  have h: "a + 24 \<le> w \<or> w + length ws \<le> a" "a + 24 \<le> 2 ^ 64"
    using Cons.prems(2,4) by (auto simp: b)
  note bw = blk_write_other [OF h(1) Cons.prems(3) h(2), of m]
  have "chain (mem_write m (of_nat w) ws) (a + 24 + sz) bs z"
    using Cons.prems by (intro Cons.IH) (auto simp: b)
  then show ?case
    using Cons.prems(1) by (simp add: b bw)
qed

lemma chain_frame_set:
  fixes a b :: nat
  assumes "chain m a bs z"
    and "a + heap_extent bs \<le> b \<or> b + 24 \<le> a"
    and "b + 24 \<le> 2 ^ 64" "a + heap_extent bs \<le> 2 ^ 64"
  shows "chain (set_size m (of_nat b) v) a bs z"
    and "chain (set_free m (of_nat b) w) a bs z"
    and "chain (set_next m (of_nat b) v) a bs z"
proof -
  show "chain (set_size m (of_nat b) v) a bs z"
    unfolding set_field_as_write using assms by (intro chain_frame_write) auto
  show "chain (set_free m (of_nat b) w) a bs z"
    unfolding set_field_as_write using assms by (intro chain_frame_write) auto
  show "chain (set_next m (of_nat b) v) a bs z"
    unfolding set_field_as_write using assms by (intro chain_frame_write) auto
qed

lemma fit_split_Some:
  "fit_split r bs = Some (xs, sz, ys) \<Longrightarrow>
     bs = xs @ (sz, True) # ys \<and> r \<le> sz \<and> (\<forall>(s, f) \<in> set xs. \<not> (f \<and> r \<le> s))"
proof (induction bs arbitrary: xs)
  case Nil
  then show ?case by simp
next
  case (Cons b bs)
  obtain s f where b: "b = (s, f)" by (cases b)
  show ?case
  proof (cases "f \<and> r \<le> s")
    case True
    with Cons.prems show ?thesis by (auto simp: b)
  next
    case False
    with Cons.prems obtain xs' where x: "fit_split r bs = Some (xs', sz, ys)" and xs: "xs = (s, f) # xs'"
      by (auto simp: b split: if_splits)
    from Cons.IH [OF x] False show ?thesis by (auto simp: b xs)
  qed
qed

lemma of_nat_u64_eq_0:
  fixes a :: nat
  assumes "0 < a" "a < 2 ^ 64"
  shows "(of_nat a :: u64) \<noteq> 0"
proof -
  have "unat (of_nat a :: u64) = a" using assms by (simp add: unat_of_nat)
  with assms show ?thesis by (metis less_numeral_extra(3) unat_0)
qed

lemma of_nat_u64_le:
  fixes a b :: nat
  assumes "a < 2 ^ 64" "b < 2 ^ 64"
  shows "(of_nat a :: u64) \<le> of_nat b \<longleftrightarrow> a \<le> b"
  using assms by (simp add: word_le_nat_alt unat_of_nat)

text \<open>\<open>find_free_block\<close> on a chain: it returns, with the first fit or the null pointer.\<close>

lemma find_free_block_chain:
  assumes "chain m a bs 0" "bs \<noteq> []" "0 < a" "a + heap_extent bs < 2 ^ 64" "r < 2 ^ 64"
  shows "find_free_block_loop m (of_nat r) (of_nat a) =
           Some (case fit_split r bs of None \<Rightarrow> 0 | Some (xs, sz, ys) \<Rightarrow> of_nat (a + heap_extent xs))"
  using assms
proof (induction bs arbitrary: a)
  case Nil
  then show ?case by simp
next
  case (Cons b bs)
  obtain sz fr where b: "b = (sz, fr)" by (cases b)
  have a0: "(of_nat a :: u64) \<noteq> 0"
    using Cons.prems by (intro of_nat_u64_eq_0) auto
  have szb: "sz < 2 ^ 64" using Cons.prems(4) by (simp add: b)
  have sz: "blk_size m (of_nat a) = of_nat sz" and fr: "blk_free m (of_nat a) = (if fr then 1 else 0)"
    and nx: "blk_next m (of_nat a) = (if bs = [] then 0 else of_nat (a + 24 + sz))"
    and ch: "chain m (a + 24 + sz) bs 0"
    using Cons.prems(1) by (simp_all add: b)
  have cond: "(blk_free m (of_nat a) \<noteq> 0 \<and> blk_size m (of_nat a) \<ge> of_nat r) \<longleftrightarrow> (fr \<and> r \<le> sz)"
    using of_nat_u64_le [OF Cons.prems(5) szb] by (simp add: sz fr)
  show ?case
  proof (cases "fr \<and> r \<le> sz")
    case True
    then show ?thesis
      using a0 cond by (subst find_free_block_loop.simps) (simp add: b)
  next
    case False
    show ?thesis
    proof (cases "bs = []")
      case True
      have "find_free_block_loop m (of_nat r) 0 = Some 0"
        by (subst find_free_block_loop.simps) simp
      then show ?thesis
        using a0 cond False True nx by (subst find_free_block_loop.simps) (simp add: b)
    next
      case ne: False
      have "find_free_block_loop m (of_nat r) (of_nat (a + 24 + sz)) =
           Some (case fit_split r bs of None \<Rightarrow> 0
                 | Some (xs, s, ys) \<Rightarrow> of_nat (a + 24 + sz + heap_extent xs))"
        using ch ne Cons.prems by (intro Cons.IH) (auto simp: b)
      then show ?thesis
        using a0 cond False ne nx
        by (subst find_free_block_loop.simps)
           (auto simp: b add.assoc split: option.splits)
    qed
  qed
qed

lemma heap_extent_split_spec: "r + 24 \<le> sz \<Longrightarrow> heap_extent (split_spec r sz) = 24 + sz"
  by (simp add: split_spec_def)

lemma chain_replace:
  assumes "chain m a xs (of_nat (a + heap_extent xs))"
    and "chain m (a + heap_extent xs) mid (if ys = [] then z else of_nat (a + heap_extent xs + heap_extent mid))"
    and "chain m (a + heap_extent xs + heap_extent mid) ys z"
    and "mid \<noteq> []"
  shows "chain m a (xs @ mid @ ys) z"
  using assms by (simp add: chain_append add.assoc)

lemma split_block_eq:
  fixes r k :: nat
  assumes "blk_size m block = of_nat (r + 24 + k)" "k < 2 ^ 64"
  shows "split_block m block (of_nat r) =
     (if 16 \<le> k
      then set_next (set_size (set_next (set_free (set_size m (block + 24 + of_nat r) (of_nat k))
                (block + 24 + of_nat r) 1) (block + 24 + of_nat r)
                  (blk_next (set_free (set_size m (block + 24 + of_nat r) (of_nat k))
                      (block + 24 + of_nat r) 1) block))
              block (of_nat r)) block (block + 24 + of_nat r)
      else m)"
proof -
  have "(16 :: u64) = of_nat 16" by simp
  then have cmp: "(16 :: u64) \<le> of_nat k \<longleftrightarrow> 16 \<le> k"
    using of_nat_u64_le [of 16 k] assms(2) by simp
  have rem: "blk_size m block - of_nat r - 24 = of_nat k"
    by (simp add: assms(1))
  show ?thesis
    unfolding split_block_def HEADER_SIZE_def MIN_BLOCK_SIZE_def rem Let_def cmp
    by (rule refl)
qed

text \<open>\<open>split_block\<close> and the store \<open>block->free = 0\<close> on the chosen block of a chain.\<close>

lemma split_block_chain:
  fixes a r sz :: nat
  assumes blk: "chain m a [(sz, True)] z"
    and fits: "r + 24 \<le> sz" and bound: "a + 24 + sz \<le> 2 ^ 64"
  defines "m' \<equiv> set_free (split_block m (of_nat a) (of_nat r)) (of_nat a) 0"
  shows "chain m' a (split_spec r sz) z"
    and "blk_size m' (of_nat a) = of_nat (if 16 \<le> sz - r - 24 then r else sz)"
    and "\<forall>p bs' y. (p + heap_extent bs' \<le> a \<or> a + 24 + sz \<le> p) \<longrightarrow> p + heap_extent bs' \<le> 2 ^ 64 \<longrightarrow>
            chain m p bs' y \<longrightarrow> chain m' p bs' y"
proof -
  let ?A = "of_nat a :: u64"
  obtain k where k: "sz = r + 24 + k" using fits by (metis le_Suc_ex)
  have kb: "k < 2 ^ 64" using bound k by simp
  have k': "sz - r - 24 = k" using k by simp
  have hs: "blk_size m ?A = of_nat (r + 24 + k)" and hf: "blk_free m ?A = 1" and hn: "blk_next m ?A = z"
    using blk by (simp_all add: k)
  have a24: "a + 24 \<le> 2 ^ 64" using bound by simp
  note sp = split_block_eq [OF hs kb]
  have "chain m' a (split_spec r sz) z
    \<and> blk_size m' (of_nat a) = of_nat (if 16 \<le> k then r else sz)
    \<and> (\<forall>p bs' y. (p + heap_extent bs' \<le> a \<or> a + 24 + sz \<le> p) \<longrightarrow> p + heap_extent bs' \<le> 2 ^ 64 \<longrightarrow>
            chain m p bs' y \<longrightarrow> chain m' p bs' y)"
  proof (cases "16 \<le> k")
    case False
    then have e: "m' = set_free m ?A 0"
      by (simp add: m'_def sp)
    have c1: "chain m' a (split_spec r sz) z"
      using False hs hn by (simp add: e split_spec_def k' blk_set_same_block [OF a24] k)
    have c2: "blk_size m' (of_nat a) = of_nat (if 16 \<le> k then r else sz)"
      using False hs by (simp add: e blk_set_same_block [OF a24] k)
    have "chain m' p bs' y"
      if "p + heap_extent bs' \<le> a \<or> a + 24 + sz \<le> p" "p + heap_extent bs' \<le> 2 ^ 64" "chain m p bs' y"
      for p bs' y
      unfolding e using that a24 by (intro chain_frame_set(2)) auto
    then show ?thesis using c1 c2 by blast
  next
    case True
    let ?nb = "a + 24 + r"
    let ?N = "of_nat ?nb :: u64"
    have nb24: "?nb + 24 \<le> 2 ^ 64" and sep: "a + 24 \<le> ?nb \<or> ?nb + 24 \<le> a"
      and sep': "?nb + 24 \<le> a \<or> a + 24 \<le> ?nb"
      using True k bound by auto
    have nbe: "?A + 24 + of_nat r = ?N" by simp
    define m1 where "m1 = set_size m ?N (of_nat k)"
    define m2 where "m2 = set_free m1 ?N 1"
    define m3 where "m3 = set_next m2 ?N (blk_next m2 ?A)"
    define m4 where "m4 = set_size m3 ?A (of_nat r)"
    define m5 where "m5 = set_next m4 ?A ?N"
    have e: "m' = set_free m5 ?A 0"
      unfolding m'_def sp nbe using True
      by (simp only: m1_def m2_def m3_def m4_def m5_def if_True)
    note o = blk_set_other [OF sep a24 nb24] blk_set_other [OF sep' nb24 a24]
    note sb = blk_set_same_block [OF a24] blk_set_same_block [OF nb24]
    have n2: "blk_next m2 ?A = z"
      by (simp only: m2_def m1_def o hn)
    have A_size: "blk_size m' ?A = of_nat r"
      by (simp only: e m5_def m4_def sb blk_same)
    have A_free: "blk_free m' ?A = 0"
      by (simp only: e blk_same)
    have A_next: "blk_next m' ?A = ?N"
      by (simp only: e m5_def sb blk_same)
    have N_size: "blk_size m' ?N = of_nat k"
      by (simp only: e m5_def m4_def m3_def m2_def m1_def o sb blk_same)
    have N_free: "blk_free m' ?N = 1"
      by (simp only: e m5_def m4_def m3_def m2_def o sb blk_same)
    have N_next: "blk_next m' ?N = z"
      by (simp only: e m5_def m4_def m3_def o n2 blk_same)
    have ch: "chain m' a [(r, False), (k, True)] z"
      using A_size A_free A_next N_size N_free N_next by simp
    have c1: "chain m' a (split_spec r sz) z"
      using True ch by (simp only: split_spec_def k' if_True)
    have c2: "blk_size m' (of_nat a) = of_nat (if 16 \<le> k then r else sz)"
      using True A_size by simp
    have "chain m' p bs' y"
      if h: "p + heap_extent bs' \<le> a \<or> a + 24 + sz \<le> p" "p + heap_extent bs' \<le> 2 ^ 64" "chain m p bs' y"
      for p bs' y
    proof -
      have ha: "p + heap_extent bs' \<le> a \<or> a + 24 \<le> p"
        and hn: "p + heap_extent bs' \<le> ?nb \<or> ?nb + 24 \<le> p"
        using h(1) True k by auto
      have "chain m1 p bs' y" unfolding m1_def using h(3) hn nb24 h(2) by (rule chain_frame_set(1))
      then have "chain m2 p bs' y" unfolding m2_def using hn nb24 h(2) by (rule chain_frame_set(2))
      then have "chain m3 p bs' y" unfolding m3_def using hn nb24 h(2) by (rule chain_frame_set(3))
      then have "chain m4 p bs' y" unfolding m4_def using ha a24 h(2) by (rule chain_frame_set(1))
      then have "chain m5 p bs' y" unfolding m5_def using ha a24 h(2) by (rule chain_frame_set(3))
      then show ?thesis unfolding e using ha a24 h(2) by (rule chain_frame_set(2))
    qed
    then show ?thesis using c1 c2 by blast
  qed
  then show "chain m' a (split_spec r sz) z"
    and "blk_size m' (of_nat a) = of_nat (if 16 \<le> sz - r - 24 then r else sz)"
    and "\<forall>p bs' y. (p + heap_extent bs' \<le> a \<or> a + 24 + sz \<le> p) \<longrightarrow> p + heap_extent bs' \<le> 2 ^ 64 \<longrightarrow>
            chain m p bs' y \<longrightarrow> chain m' p bs' y"
    unfolding k' by blast+
qed

lemma heap_wf_start:
  assumes "heap_wf s bs"
  shows "of_nat (unat (heap_start s)) = heap_start s" "heap_start s \<noteq> 0"
  using assms by (auto simp: heap_wf_def)

lemma find_free_block_wf:
  assumes "heap_wf s bs"
  shows "find_free_block s sz =
           Some (case fit_split (unat sz) bs of None \<Rightarrow> 0
                 | Some (xs, b, ys) \<Rightarrow> heap_start s + of_nat (heap_extent xs))"
proof -
  let ?a = "unat (heap_start s)"
  have "find_free_block_loop (heap_mem s) (of_nat (unat sz)) (of_nat ?a) =
           Some (case fit_split (unat sz) bs of None \<Rightarrow> 0
                 | Some (xs, b, ys) \<Rightarrow> of_nat (?a + heap_extent xs))"
    using assms unsigned_less [of sz, where 'a = nat]
    by (intro find_free_block_chain) (auto simp: heap_wf_def)
  then show ?thesis
    by (simp add: find_free_block_def split: option.splits)
qed

lemma kmalloc_wf_none:
  assumes "heap_wf s bs" "fit_split (unat (align_size n)) bs = None"
  shows "kmalloc s n = Some (0, s)"
  using assms find_free_block_wf [OF assms(1), of "align_size n"]
  by (simp add: kmalloc_def Let_def)

lemma kmalloc_wf_some:
  assumes wf: "heap_wf s bs" and n: "n \<noteq> 0"
    and fit: "fit_split (unat (align_size n)) bs = Some (xs, sz, ys)"
    and fits: "unat (align_size n) + 24 \<le> sz"
  shows "\<exists>s'. kmalloc s n = Some (heap_start s + of_nat (heap_extent xs) + 24, s')
           \<and> heap_wf s' (xs @ split_spec (unat (align_size n)) sz @ ys)
           \<and> heap_used s' = heap_used s + of_nat (if 16 \<le> sz - unat (align_size n) - 24 then unat (align_size n) else sz) + 24
           \<and> heap_start s' = heap_start s \<and> heap_size s' = heap_size s"
proof -
  let ?r = "unat (align_size n)"
  let ?a = "unat (heap_start s)"
  let ?ai = "?a + heap_extent xs"
  let ?m = "heap_mem s"
  from fit_split_Some [OF fit] have bs: "bs = xs @ (sz, True) # ys" by simp
  have ext: "heap_extent bs = heap_extent xs + (24 + sz + heap_extent ys)" by (simp add: bs)
  have base: "0 < ?a" and tot: "?a + heap_extent bs < 2 ^ 64" and ch: "chain ?m ?a bs 0"
    and hs: "heap_extent bs = unat (heap_size s)"
    using wf by (auto simp: heap_wf_def)
  have pre: "chain ?m ?a xs (of_nat ?ai)"
    and blk: "chain ?m ?ai [(sz, True)] (if ys = [] then 0 else of_nat (?ai + 24 + sz))"
    and suf: "chain ?m (?ai + 24 + sz) ys 0"
    using ch by (simp_all add: bs chain_append add.assoc)
  have bnd: "?ai + 24 + sz \<le> 2 ^ 64" using tot ext by simp
  define m' where "m' = set_free (split_block ?m (of_nat ?ai) (of_nat ?r)) (of_nat ?ai) 0"
  note sp = split_block_chain [OF blk fits bnd, folded m'_def]
  have blockeq: "heap_start s + of_nat (heap_extent xs) = of_nat ?ai" by simp
  have ne0: "(of_nat ?ai :: u64) \<noteq> 0"
    using base bnd by (intro of_nat_u64_eq_0) auto
  have ff: "find_free_block s (align_size n) = Some (of_nat ?ai)"
    using find_free_block_wf [OF wf, of "align_size n"] fit by simp
  define s' where "s' = s\<lparr> heap_mem := m', heap_used := heap_used s + (blk_size m' (of_nat ?ai) + HEADER_SIZE) \<rparr>"
  have km: "kmalloc s n = Some (of_nat ?ai + HEADER_SIZE, s')"
    using n ne0 by (simp add: kmalloc_def Let_def ff s'_def m'_def del: of_nat_add)
  have pre': "chain m' ?a xs (of_nat ?ai)"
    using sp(3) pre bnd by simp
  have suf': "chain m' (?ai + 24 + sz) ys 0"
    using sp(3) suf tot ext by simp
  have e: "?ai + heap_extent (split_spec ?r sz) = ?ai + 24 + sz"
    by (simp add: heap_extent_split_spec [OF fits])
  have mid': "chain m' ?ai (split_spec ?r sz) (if ys = [] then 0 else of_nat (?ai + heap_extent (split_spec ?r sz)))"
    unfolding e by (rule sp(1))
  have sne: "split_spec ?r sz \<noteq> []" by (simp add: split_spec_def)
  then have ch': "chain m' ?a (xs @ split_spec ?r sz @ ys) 0"
    using pre' mid' suf' unfolding e [symmetric] by (intro chain_replace)
  have wf': "heap_wf s' (xs @ split_spec ?r sz @ ys)"
    using base tot hs ch' ext sne
    by (simp add: heap_wf_def s'_def heap_extent_split_spec [OF fits])
  have p: "of_nat ?ai + HEADER_SIZE = heap_start s + of_nat (heap_extent xs) + 24"
    by (simp add: HEADER_SIZE_def)
  have "heap_used s' = heap_used s + (blk_size m' (of_nat ?ai) + 24)"
    by (simp add: s'_def HEADER_SIZE_def del: of_nat_add)
  then have "heap_used s' = heap_used s + (of_nat (if 16 \<le> sz - ?r - 24 then ?r else sz) + 24)"
    by (simp only: sp(2))
  then have u: "heap_used s' = heap_used s + of_nat (if 16 \<le> sz - ?r - 24 then ?r else sz) + 24"
    by (simp only: add.assoc)
  have "heap_start s' = heap_start s" "heap_size s' = heap_size s"
    by (simp_all add: s'_def)
  then show ?thesis
    using km wf' u unfolding p by blast
qed

lemma merge_spec_two:
  "merge_spec ((s1, f1) # (s2, f2) # bs) =
     (if f1 \<and> f2 then merge_spec ((s1 + 24 + s2, True) # bs)
      else (s1, f1) # merge_spec ((s2, f2) # bs))"
  by (cases f1; cases f2) simp_all

lemma merge_spec_one: "merge_spec [b] = [b]"
  by (cases b) (case_tac b, simp_all)

lemma merge_spec_Nil_iff [simp]: "merge_spec bs = [] \<longleftrightarrow> bs = []"
  by (induction bs rule: merge_spec.induct) simp_all

lemma heap_extent_Cons: "heap_extent (b # bs) = 24 + fst b + heap_extent bs"
  by (cases b) simp

lemma heap_extent_merge_spec [simp]: "heap_extent (merge_spec bs) = heap_extent bs"
  by (induction bs rule: merge_spec.induct) (simp_all add: heap_extent_Cons)

lemma merge_loop_chain:
  assumes "chain m a bs 0" "bs \<noteq> []" "0 < a" "a + heap_extent bs < 2 ^ 64"
  shows "\<exists>m'. merge_free_blocks_loop m (of_nat a) = Some m'
            \<and> chain m' a (merge_spec bs) 0
            \<and> (\<forall>p cs y. (p + heap_extent cs \<le> a \<or> a + heap_extent bs \<le> p) \<longrightarrow>
                  p + heap_extent cs \<le> 2 ^ 64 \<longrightarrow> chain m p cs y \<longrightarrow> chain m' p cs y)"
  using assms
proof (induction "length bs" arbitrary: bs m a rule: less_induct)
  case less
  let ?A = "of_nat a :: u64"
  have a0: "?A \<noteq> 0" using less.prems by (intro of_nat_u64_eq_0) auto
  obtain s1 f1 rest where bs: "bs = (s1, f1) # rest"
    using less.prems(2) by (cases bs) auto
  show ?case
  proof (cases rest)
    case Nil
    have "blk_next m ?A = 0" using less.prems(1) by (simp add: bs Nil)
    then have "merge_free_blocks_loop m ?A = Some m"
      by (subst merge_free_blocks_loop.simps) simp
    then show ?thesis
      using less.prems(1) by (simp add: bs Nil merge_spec_one)
  next
    case (Cons c rest')
    obtain s2 f2 where c: "c = (s2, f2)" by (cases c)
    let ?a2 = "a + 24 + s1"
    let ?B = "of_nat ?a2 :: u64"
    note bs' = bs Cons c
    have h1: "blk_size m ?A = of_nat s1" "blk_free m ?A = (if f1 then 1 else 0)" "blk_next m ?A = ?B"
      and h2: "blk_size m ?B = of_nat s2" "blk_free m ?B = (if f2 then 1 else 0)"
        "blk_next m ?B = (if rest' = [] then 0 else of_nat (?a2 + 24 + s2))"
      and tl: "chain m (?a2 + 24 + s2) rest' 0"
      and ch2: "chain m ?a2 ((s2, f2) # rest') 0"
      using less.prems(1) by (simp_all add: bs')
    have bnd: "?a2 + 24 + s2 + heap_extent rest' < 2 ^ 64"
      using less.prems(4) by (simp add: bs')
    have b0: "?B \<noteq> 0" using bnd by (intro of_nat_u64_eq_0) auto
    have a24: "a + 24 \<le> 2 ^ 64" and b24: "?a2 + 24 \<le> 2 ^ 64" using bnd by auto
    have sep: "?a2 + 24 \<le> a \<or> a + 24 \<le> ?a2" by simp
    show ?thesis
    proof (cases "f1 \<and> f2")
      case True
      define m1 where "m1 = set_size m ?A (blk_size m ?A + (HEADER_SIZE + blk_size m (blk_next m ?A)))"
      define m2 where "m2 = set_next m1 ?A (blk_next m1 (blk_next m1 ?A))"
      have step: "merge_free_blocks_loop m ?A = merge_free_blocks_loop m2 ?A"
        using a0 b0 True h1 h2
        by (subst merge_free_blocks_loop.simps) (simp add: Let_def m1_def m2_def del: of_nat_add)
      have n1: "blk_next m1 ?A = ?B"
        by (simp only: m1_def blk_set_same_block [OF a24] h1)
      have n1b: "blk_next m1 ?B = blk_next m ?B"
        unfolding m1_def by (rule blk_set_other(3) [OF sep b24 a24])
      have "blk_size m2 ?A = of_nat s1 + (24 + of_nat s2)"
        by (simp only: m2_def m1_def blk_set_same_block [OF a24] blk_same h1 h2 HEADER_SIZE_def)
      then have sz: "blk_size m2 ?A = of_nat (s1 + 24 + s2)"
        by simp
      have "blk_free m2 ?A = (if f1 then 1 else 0)"
        by (simp only: m2_def m1_def blk_set_same_block [OF a24] h1)
      then have fr: "blk_free m2 ?A = 1"
        using True by simp
      have "blk_next m2 ?A = (if rest' = [] then 0 else of_nat (?a2 + 24 + s2))"
        by (simp only: m2_def n1 n1b h2 blk_same)
      then have nx: "blk_next m2 ?A = (if rest' = [] then 0 else of_nat (a + 24 + (s1 + 24 + s2)))"
        by (simp only: add.assoc)
      have frame2: "chain m2 p cs y"
        if "p + heap_extent cs \<le> a \<or> a + 24 \<le> p" "p + heap_extent cs \<le> 2 ^ 64" "chain m p cs y"
        for p cs y
      proof -
        have "chain m1 p cs y" unfolding m1_def using that(3,1) a24 that(2) by (rule chain_frame_set(1))
        then show ?thesis unfolding m2_def using that(1) a24 that(2) by (rule chain_frame_set(3))
      qed
      have "chain m2 (?a2 + 24 + s2) rest' 0"
        using tl bnd by (intro frame2) auto
      then have ch: "chain m2 a ((s1 + 24 + s2, True) # rest') 0"
        using sz fr nx by (simp add: add.assoc)
      have "\<exists>m'. merge_free_blocks_loop m2 ?A = Some m'
            \<and> chain m' a (merge_spec ((s1 + 24 + s2, True) # rest')) 0
            \<and> (\<forall>p cs y. (p + heap_extent cs \<le> a \<or> a + heap_extent ((s1 + 24 + s2, True) # rest') \<le> p) \<longrightarrow>
                  p + heap_extent cs \<le> 2 ^ 64 \<longrightarrow> chain m2 p cs y \<longrightarrow> chain m' p cs y)"
        using ch less.prems(3,4) by (intro less.hyps) (auto simp: bs')
      then obtain m' where r: "merge_free_blocks_loop m2 ?A = Some m'"
        and c': "chain m' a (merge_spec ((s1 + 24 + s2, True) # rest')) 0"
        and f': "\<And>p cs y. p + heap_extent cs \<le> a \<or> a + heap_extent ((s1 + 24 + s2, True) # rest') \<le> p \<Longrightarrow>
                  p + heap_extent cs \<le> 2 ^ 64 \<Longrightarrow> chain m2 p cs y \<Longrightarrow> chain m' p cs y"
        by blast
      have "chain m' p cs y"
        if "p + heap_extent cs \<le> a \<or> a + heap_extent bs \<le> p" "p + heap_extent cs \<le> 2 ^ 64" "chain m p cs y"
        for p cs y
      proof -
        have "chain m2 p cs y" using that by (intro frame2) (auto simp: bs')
        then show ?thesis using that by (intro f') (auto simp: bs')
      qed
      moreover have ms: "merge_spec bs = merge_spec ((s1 + 24 + s2, True) # rest')"
        using True by (simp add: bs' merge_spec_two)
      ultimately show ?thesis
        using r c' unfolding step ms by blast
    next
      case False
      have step: "merge_free_blocks_loop m ?A = merge_free_blocks_loop m ?B"
        using a0 b0 False h1 h2
        by (subst merge_free_blocks_loop.simps) (auto simp del: of_nat_add)
      have "\<exists>m'. merge_free_blocks_loop m ?B = Some m'
            \<and> chain m' ?a2 (merge_spec ((s2, f2) # rest')) 0
            \<and> (\<forall>p cs y. (p + heap_extent cs \<le> ?a2 \<or> ?a2 + heap_extent ((s2, f2) # rest') \<le> p) \<longrightarrow>
                  p + heap_extent cs \<le> 2 ^ 64 \<longrightarrow> chain m p cs y \<longrightarrow> chain m' p cs y)"
        using ch2 bnd by (intro less.hyps) (auto simp: bs')
      then obtain m' where r: "merge_free_blocks_loop m ?B = Some m'"
        and c': "chain m' ?a2 (merge_spec ((s2, f2) # rest')) 0"
        and f': "\<And>p cs y. p + heap_extent cs \<le> ?a2 \<or> ?a2 + heap_extent ((s2, f2) # rest') \<le> p \<Longrightarrow>
                  p + heap_extent cs \<le> 2 ^ 64 \<Longrightarrow> chain m p cs y \<Longrightarrow> chain m' p cs y"
        by blast
      have "chain m a [(s1, f1)] ?B" using h1 by simp
      then have "chain m' a [(s1, f1)] ?B"
        using b24 by (intro f') auto
      then have ch: "chain m' a ((s1, f1) # merge_spec ((s2, f2) # rest')) 0"
        using c' by simp
      have ms: "merge_spec bs = (s1, f1) # merge_spec ((s2, f2) # rest')"
        using False by (auto simp: bs' merge_spec_two)
      have "chain m' p cs y"
        if "p + heap_extent cs \<le> a \<or> a + heap_extent bs \<le> p" "p + heap_extent cs \<le> 2 ^ 64" "chain m p cs y"
        for p cs y
        using that by (intro f') (auto simp: bs')
      then show ?thesis
        using r ch unfolding step ms by blast
    qed
  qed
qed

lemma block_at_Some:
  "block_at off bs = Some (xs, b, ys) \<Longrightarrow> bs = xs @ b # ys \<and> heap_extent xs = off"
proof (induction bs arbitrary: off xs)
  case Nil
  then show ?case by simp
next
  case (Cons c bs)
  obtain s f where c: "c = (s, f)" by (cases c)
  show ?case
  proof (cases "off = 0")
    case True
    with Cons.prems show ?thesis by (simp add: c)
  next
    case False
    with Cons.prems obtain xs' where x: "block_at (off - (24 + s)) bs = Some (xs', b, ys)"
      and xs: "xs = (s, f) # xs'" and le: "24 + s \<le> off"
      by (auto simp: c split: if_splits)
    from Cons.IH [OF x] le show ?thesis by (auto simp: c xs)
  qed
qed

lemma heap_init_wf:
  assumes "start \<noteq> 0" "24 \<le> unat sz" "unat start + unat sz < 2 ^ 64"
  shows "heap_wf (heap_init m start sz) [(unat sz - 24, True)]"
proof -
  let ?a = "unat start"
  have A: "of_nat ?a = start" by simp
  have a24: "?a + 24 \<le> 2 ^ 64" using assms by simp
  have "(24 :: u64) \<le> sz" using assms(2) by (simp add: word_le_nat_alt)
  then have "unat (sz - 24) = unat sz - 24" by (simp add: unat_sub)
  moreover have "of_nat (unat (sz - 24)) = sz - 24" by simp
  ultimately have v: "sz - 24 = of_nat (unat sz - 24)" by (simp only:)
  note sb = blk_set_same_block [OF a24, unfolded A]
  have "0 < ?a" using assms(1) by (simp add: unat_gt_0)
  then show ?thesis
    using assms(2,3) v by (simp add: heap_wf_def heap_init_def HEADER_SIZE_def sb)
qed

lemma kfree_wf:
  assumes wf: "heap_wf s bs" and at: "block_at off bs = Some (xs, (sz, fr), ys)"
  shows "fr \<longrightarrow> kfree s (heap_start s + of_nat off + 24) = Some s"
    and "\<not> fr \<longrightarrow> (\<exists>s'. kfree s (heap_start s + of_nat off + 24) = Some s'
             \<and> heap_wf s' (merge_spec (xs @ (sz, True) # ys))
             \<and> heap_used s' = heap_used s - (of_nat sz + 24)
             \<and> heap_start s' = heap_start s \<and> heap_size s' = heap_size s)"
proof -
  let ?a = "unat (heap_start s)"
  let ?ai = "?a + off"
  let ?m = "heap_mem s"
  let ?B = "of_nat ?ai :: u64"
  from block_at_Some [OF at] have bs: "bs = xs @ (sz, fr) # ys" and off: "heap_extent xs = off" by simp_all
  have ext: "heap_extent bs = off + (24 + sz + heap_extent ys)" by (simp add: bs off)
  have base: "0 < ?a" and tot: "?a + heap_extent bs < 2 ^ 64" and ch: "chain ?m ?a bs 0"
    and hs: "heap_extent bs = unat (heap_size s)"
    using wf by (auto simp: heap_wf_def)
  have pre: "chain ?m ?a xs ?B"
    and blk: "chain ?m ?ai [(sz, fr)] (if ys = [] then 0 else of_nat (?ai + 24 + sz))"
    and suf: "chain ?m (?ai + 24 + sz) ys 0"
    using ch by (simp_all add: bs chain_append off add.assoc)
  have b24: "?ai + 24 \<le> 2 ^ 64" and pb: "?ai + 24 < 2 ^ 64" using tot ext by simp_all
  let ?ptr = "heap_start s + of_nat off + 24"
  have ptr: "?ptr = of_nat (?ai + 24)" by simp
  have "(of_nat (?ai + 24) :: u64) \<noteq> 0"
    using pb by (intro of_nat_u64_eq_0) auto
  then have p0: "?ptr \<noteq> 0" unfolding ptr .
  have blk_eq: "?ptr - HEADER_SIZE = ?B" by (simp add: HEADER_SIZE_def)
  have uB: "unat ?B = ?ai" using pb by (simp add: unat_of_nat del: of_nat_add)
  have uE: "unat (heap_start s + heap_size s) = ?a + unat (heap_size s)"
    using tot hs by (simp add: unat_word_ariths)
  have r1: "\<not> ?B < heap_start s" using uB by (simp add: word_less_nat_alt del: of_nat_add)
  have r2: "\<not> ?B \<ge> heap_start s + heap_size s"
    using uB uE hs ext by (simp add: word_le_nat_alt del: of_nat_add)
  have fl: "blk_free ?m ?B = (if fr then 1 else 0)" and bsz: "blk_size ?m ?B = of_nat sz"
    and bnx: "blk_next ?m ?B = (if ys = [] then 0 else of_nat (?ai + 24 + sz))"
    using blk by simp_all
  show "fr \<longrightarrow> kfree s ?ptr = Some s"
    using p0 r1 r2 fl unfolding kfree_def blk_eq Let_def by simp
  show "\<not> fr \<longrightarrow> (\<exists>s'. kfree s ?ptr = Some s'
             \<and> heap_wf s' (merge_spec (xs @ (sz, True) # ys))
             \<and> heap_used s' = heap_used s - (of_nat sz + 24)
             \<and> heap_start s' = heap_start s \<and> heap_size s' = heap_size s)"
  proof
    assume nf: "\<not> fr"
    define m1 where "m1 = set_free ?m ?B 1"
    note sb = blk_set_same_block [OF b24]
    have s1: "blk_size m1 ?B = of_nat sz"
      by (simp only: m1_def sb bsz)
    have pre1: "chain m1 ?a xs ?B"
      unfolding m1_def using pre b24 by (intro chain_frame_set(2)) (auto simp: off)
    have suf1: "chain m1 (?ai + 24 + sz) ys 0"
      unfolding m1_def using suf b24 tot ext by (intro chain_frame_set(2)) auto
    have "blk_next m1 ?B = (if ys = [] then 0 else of_nat (?ai + 24 + sz))"
      by (simp only: m1_def sb bnx)
    then have mid1: "chain m1 ?ai [(sz, True)] (if ys = [] then 0 else of_nat (?ai + 24 + sz))"
      using s1 by (simp add: m1_def del: of_nat_add)
    have ch1: "chain m1 ?a (xs @ (sz, True) # ys) 0"
      using pre1 mid1 suf1 by (simp add: chain_append off add.assoc del: of_nat_add)
    let ?bs1 = "xs @ (sz, True) # ys"
    have e1: "heap_extent ?bs1 = heap_extent bs" by (simp add: bs)
    from merge_loop_chain [OF _ _ base, of m1 ?bs1] ch1 tot e1
    obtain m' where ml: "merge_free_blocks_loop m1 (of_nat ?a) = Some m'"
      and c': "chain m' ?a (merge_spec ?bs1) 0"
      by auto
    define s' where "s' = s\<lparr> heap_mem := m', heap_used := heap_used s - (blk_size m1 ?B + HEADER_SIZE) \<rparr>"
    have fz: "blk_free ?m ?B = 0" using fl nf by simp
    have kf: "kfree s ?ptr = Some s'"
      using p0 r1 r2 fz ml unfolding kfree_def blk_eq Let_def
      by (simp add: merge_free_blocks_def m1_def s'_def)
    have wf': "heap_wf s' (merge_spec ?bs1)"
      using base tot hs c' e1 by (simp add: heap_wf_def s'_def)
    have u: "heap_used s' = heap_used s - (of_nat sz + 24)"
      by (simp add: s'_def s1 HEADER_SIZE_def del: of_nat_add)
    have "heap_start s' = heap_start s" "heap_size s' = heap_size s"
      by (simp_all add: s'_def)
    then show "\<exists>s'. kfree s ?ptr = Some s'
             \<and> heap_wf s' (merge_spec (xs @ (sz, True) # ys))
             \<and> heap_used s' = heap_used s - (of_nat sz + 24)
             \<and> heap_start s' = heap_start s \<and> heap_size s' = heap_size s"
      using kf wf' u by blast
  qed
qed

lemma heap_blocks_chain:
  assumes "chain m a bs 0" "0 < a" "a + heap_extent bs < 2 ^ 64"
  shows "heap_blocks_from m (if bs = [] then 0 else of_nat a) = Some (blocks_of a bs)"
  using assms
proof (induction bs arbitrary: a)
  case Nil
  show ?case by (subst heap_blocks_from.simps) simp
next
  case (Cons b bs)
  obtain sz fr where b: "b = (sz, fr)" by (cases b)
  have a0: "(of_nat a :: u64) \<noteq> 0"
    using Cons.prems by (intro of_nat_u64_eq_0) auto
  have h: "blk_size m (of_nat a) = of_nat sz" "blk_free m (of_nat a) = (if fr then 1 else 0)"
    "blk_next m (of_nat a) = (if bs = [] then 0 else of_nat (a + 24 + sz))"
    and ch: "chain m (a + 24 + sz) bs 0"
    using Cons.prems(1) by (simp_all add: b)
  have "heap_blocks_from m (if bs = [] then 0 else of_nat (a + 24 + sz)) = Some (blocks_of (a + 24 + sz) bs)"
    using ch Cons.prems by (intro Cons.IH) (auto simp: b)
  then show ?case
    using a0 h by (subst heap_blocks_from.simps) (simp add: b del: of_nat_add)
qed

lemma heap_blocks_wf:
  assumes "heap_wf s bs"
  shows "heap_blocks s = Some (blocks_of (unat (heap_start s)) bs)"
  using heap_blocks_chain [of "heap_mem s" "unat (heap_start s)" bs] assms
  by (simp add: heap_wf_def heap_blocks_def)

subsection \<open>Facts about block lists\<close>

lemma used_bytes_append [simp]: "used_bytes (xs @ ys) = used_bytes xs + used_bytes ys"
  by (induction xs) auto

lemma used_bytes_Cons: "used_bytes (b # bs) = (if snd b then 0 else fst b + 24) + used_bytes bs"
  by (cases b) simp

lemma merge_spec_cases_induct [case_names Nil One Merge Step]:
  assumes "P []" and "\<And>b. P [b]"
    and "\<And>s1 s2 rest. P ((s1 + 24 + s2, True) # rest) \<Longrightarrow> P ((s1, True) # (s2, True) # rest)"
    and "\<And>s1 f1 s2 f2 rest. \<not> (f1 \<and> f2) \<Longrightarrow> P ((s2, f2) # rest) \<Longrightarrow> P ((s1, f1) # (s2, f2) # rest)"
  shows "P bs"
proof (induction "length bs" arbitrary: bs rule: less_induct)
  case less
  show ?case
  proof (cases bs)
    case Nil
    then show ?thesis using assms(1) by simp
  next
    case (Cons b rest)
    note c1 = Cons
    show ?thesis
    proof (cases rest)
      case Nil
      then show ?thesis using assms(2) c1 by simp
    next
      case (Cons c rest')
      obtain s1 f1 s2 f2 where b: "b = (s1, f1)" and c: "c = (s2, f2)"
        by (cases b, cases c) auto
      show ?thesis
      proof (cases "f1 \<and> f2")
        case True
        have "P ((s1 + 24 + s2, True) # rest')"
          by (rule less.hyps) (simp add: c1 Cons)
        then show ?thesis using assms(3) True by (simp add: c1 Cons b c)
      next
        case False
        have "P ((s2, f2) # rest')"
          by (rule less.hyps) (simp add: c1 Cons)
        then show ?thesis using assms(4) [OF False] by (simp add: c1 Cons b c)
      qed
    qed
  qed
qed

lemma merge_spec_step:
  "\<not> (f1 \<and> f2) \<Longrightarrow> merge_spec ((s1, f1) # (s2, f2) # bs) = (s1, f1) # merge_spec ((s2, f2) # bs)"
  by (auto simp: merge_spec_two)

lemma used_bytes_merge_spec [simp]: "used_bytes (merge_spec bs) = used_bytes bs"
  by (induction bs rule: merge_spec_cases_induct) (simp_all add: merge_spec_one merge_spec_step)

lemma used_bytes_split_spec:
  "used_bytes (split_spec r sz) = (if 16 \<le> sz - r - 24 then r else sz) + 24"
  by (simp add: split_spec_def)

lemma used_ptrs_append [simp]:
  "used_ptrs a (xs @ ys) = used_ptrs a xs \<union> used_ptrs (a + heap_extent xs) ys"
  by (induction xs arbitrary: a) (auto simp: add.assoc)

lemma used_ptrs_Cons:
  "used_ptrs a (b # bs) = (if snd b then {} else {a + 24}) \<union> used_ptrs (a + 24 + fst b) bs"
  by (cases b) simp

lemma used_ptrs_merge_spec_all: "\<forall>a. used_ptrs a (merge_spec bs) = used_ptrs a bs"
  by (induction bs rule: merge_spec_cases_induct)
     (simp_all add: merge_spec_one merge_spec_step add.assoc)

lemma used_ptrs_merge_spec [simp]: "used_ptrs a (merge_spec bs) = used_ptrs a bs"
  by (simp add: used_ptrs_merge_spec_all)

lemma used_ptrs_split_spec: "used_ptrs a (split_spec r sz) = {a + 24}"
  by (simp add: split_spec_def)

lemma block_addrs_append [simp]:
  "block_addrs a (xs @ ys) = block_addrs a xs \<union> block_addrs (a + heap_extent xs) ys"
  by (induction xs arbitrary: a) (auto simp: add.assoc)

lemma block_addrs_Cons: "block_addrs a (b # bs) = {a} \<union> block_addrs (a + 24 + fst b) bs"
  by (cases b) simp

lemma block_addrs_merge_spec_all: "\<forall>a. block_addrs a (merge_spec bs) \<subseteq> block_addrs a bs"
proof (induction bs rule: merge_spec_cases_induct)
  case (Merge s1 s2 rest)
  then show ?case by (auto simp: add.assoc)
next
  case (Step s1 f1 s2 f2 rest)
  have "block_addrs a (merge_spec ((s1, f1) # (s2, f2) # rest)) \<subseteq> block_addrs a ((s1, f1) # (s2, f2) # rest)" for a
  proof -
    have "block_addrs (a + 24 + s1) (merge_spec ((s2, f2) # rest)) \<subseteq> block_addrs (a + 24 + s1) ((s2, f2) # rest)"
      using Step.IH by blast
    then show ?thesis
      unfolding merge_spec_step [OF Step.hyps] block_addrs.simps by blast
  qed
  then show ?case by blast
qed (simp_all add: merge_spec_one)

lemma block_addrs_merge_spec: "block_addrs a (merge_spec bs) \<subseteq> block_addrs a bs"
  by (simp add: block_addrs_merge_spec_all)

lemma block_addrs_split_spec: "block_addrs a (split_spec r sz) \<subseteq> {a, a + 24 + r}"
  by (simp add: split_spec_def)

lemma block_addrs_shift: "block_addrs a bs = (\<lambda>x. a + x) ` block_addrs 0 bs"
proof (induction bs arbitrary: a)
  case Nil
  show ?case by simp
next
  case (Cons b bs)
  have "block_addrs (a + 24 + fst b) bs = (\<lambda>x. a + 24 + fst b + x) ` block_addrs 0 bs"
    by (rule Cons.IH)
  moreover have "block_addrs (0 + 24 + fst b) bs = (\<lambda>x. 0 + 24 + fst b + x) ` block_addrs 0 bs"
    by (rule Cons.IH)
  ultimately show ?case
    by (auto simp: block_addrs_Cons image_image add.assoc)
qed

lemma used_ptrs_block_at:
  "x \<in> used_ptrs a bs \<Longrightarrow>
     \<exists>off xs sz ys. block_at off bs = Some (xs, (sz, False), ys) \<and> x = a + off + 24"
proof (induction bs arbitrary: a)
  case Nil
  then show ?case by simp
next
  case (Cons b bs)
  obtain s f where b: "b = (s, f)" by (cases b)
  show ?case
  proof (cases "\<not> f \<and> x = a + 24")
    case True
    then have "block_at 0 (b # bs) = Some ([], (s, False), bs)" by (simp add: b)
    with True show ?thesis by fastforce
  next
    case False
    with Cons.prems have "x \<in> used_ptrs (a + 24 + s) bs" by (auto simp: b split: if_splits)
    from Cons.IH [OF this] obtain off xs sz ys
      where at: "block_at off bs = Some (xs, (sz, False), ys)" and x: "x = a + 24 + s + off + 24"
      by blast
    have "block_at (24 + s + off) (b # bs) = Some ((s, f) # xs, (sz, False), ys)"
      using at by (simp add: b)
    with x show ?thesis by (metis add.assoc)
  qed
qed

lemma fit_split_block_addr:
  "fit_split r bs = Some (xs, sz, ys) \<Longrightarrow> a + heap_extent xs \<in> block_addrs a bs"
  by (drule fit_split_Some) auto

lemma used_sum_blocks_of: "used_sum (blocks_of a bs) = of_nat (used_bytes bs)"
  by (induction bs arbitrary: a) (auto simp: used_sum_def HEADER_SIZE_def)

lemma align_size_dvd: "16 dvd unat (align_size n)"
proof -
  have "take_bit 4 (align_size n) = 0"
    unfolding align_size_def by (rule bit_word_eqI) (auto simp: bit_simps)
  then have "unat (align_size n) mod 2 ^ 4 = 0"
    by (metis take_bit_eq_mod unat_0 unsigned_take_bit_eq)
  then show ?thesis by (simp add: dvd_eq_mod_eq_0)
qed


lemma split_fits_wf:
  assumes wf: "heap_wf s bs" and sf: "split_fits s n" and fit: "fit_split (unat (align_size n)) bs = Some (xs, sz, ys)"
  shows "unat (align_size n) + 24 \<le> sz"
proof -
  let ?a = "unat (heap_start s)"
  from fit_split_Some [OF fit] have bs: "bs = xs @ (sz, True) # ys" by simp
  have tot: "?a + heap_extent bs < 2 ^ 64" and ch: "chain (heap_mem s) ?a bs 0" and base: "0 < ?a"
    using wf by (auto simp: heap_wf_def)
  have bsz: "blk_size (heap_mem s) (of_nat (?a + heap_extent xs)) = of_nat sz"
    using ch by (simp add: bs chain_append del: of_nat_add)
  have szb: "sz < 2 ^ 64" using tot by (simp add: bs)
  have ne: "(of_nat (?a + heap_extent xs) :: u64) \<noteq> 0"
    using base tot by (intro of_nat_u64_eq_0) (auto simp: bs)
  have ff: "find_free_block s (align_size n) = Some (of_nat (?a + heap_extent xs))"
    using find_free_block_wf [OF wf, of "align_size n"] fit by simp
  have "unat (align_size n) + 24 \<le> unat (of_nat sz :: u64)"
    using sf ne unfolding split_fits_def ff bsz [symmetric] by simp
  then show ?thesis using szb by (simp add: unat_of_nat)
qed

lemma kmalloc_wf_cases:
  assumes "heap_wf s bs"
  shows "kmalloc s n = Some (0, s)
       \<or> (\<exists>xs sz ys s'. n \<noteq> 0 \<and> fit_split (unat (align_size n)) bs = Some (xs, sz, ys)
              \<and> kmalloc s n = Some (heap_start s + of_nat (heap_extent xs) + 24, s')
              \<and> heap_start s + of_nat (heap_extent xs) + 24 \<noteq> 0)"
proof (cases "n = 0")
  case True
  then show ?thesis by (simp add: kmalloc_def)
next
  case False
  show ?thesis
  proof (cases "fit_split (unat (align_size n)) bs")
    case None
    then show ?thesis using kmalloc_wf_none [OF assms] by simp
  next
    case (Some t)
    obtain xs sz ys where t: "t = (xs, sz, ys)" by (cases t)
    let ?a = "unat (heap_start s)"
    from fit_split_Some [OF Some [unfolded t]] have bs: "bs = xs @ (sz, True) # ys" by simp
    have tot: "?a + heap_extent bs < 2 ^ 64" and base: "0 < ?a"
      using assms by (auto simp: heap_wf_def)
    have ne: "(of_nat (?a + heap_extent xs) :: u64) \<noteq> 0"
      using base tot by (intro of_nat_u64_eq_0) (auto simp: bs)
    have ne': "(of_nat (?a + heap_extent xs + 24) :: u64) \<noteq> 0"
      using base tot by (intro of_nat_u64_eq_0) (auto simp: bs)
    have ff: "find_free_block s (align_size n) = Some (of_nat (?a + heap_extent xs))"
      using find_free_block_wf [OF assms, of "align_size n"] Some t by simp
    have "\<exists>s'. kmalloc s n = Some (of_nat (?a + heap_extent xs) + HEADER_SIZE, s')"
      using False ne unfolding kmalloc_def ff Let_def by simp
    then show ?thesis
      using False Some t ne' by (simp add: HEADER_SIZE_def)
  qed
qed

lemma heap_inv_kmalloc:
  assumes inv: "heap_inv s L bs" and sf: "split_fits s n" and km: "kmalloc s n = Some (p, s')"
  shows "\<exists>bs'. heap_inv s' (if p = 0 then L else insert p L) bs'
           \<and> heap_start s' = heap_start s \<and> heap_size s' = heap_size s
           \<and> (p \<noteq> 0 \<longrightarrow> (\<exists>xs q rest. bs' = xs @ (q, False) # rest \<and> unat (align_size n) \<le> q
                  \<and> p = heap_start s + of_nat (heap_extent xs) + 24))"
proof -
  have wf: "heap_wf s bs" using inv by (simp add: heap_inv_def)
  let ?a = "unat (heap_start s)"
  let ?r = "unat (align_size n)"
  from kmalloc_wf_cases [OF wf, of n]
  show ?thesis
  proof
    assume "kmalloc s n = Some (0, s)"
    with km inv show ?thesis by auto
  next
    assume "\<exists>xs sz ys s'. n \<noteq> 0 \<and> fit_split ?r bs = Some (xs, sz, ys)
              \<and> kmalloc s n = Some (heap_start s + of_nat (heap_extent xs) + 24, s')
              \<and> heap_start s + of_nat (heap_extent xs) + 24 \<noteq> 0"
    then obtain xs sz ys where n: "n \<noteq> 0" and fit: "fit_split ?r bs = Some (xs, sz, ys)"
      and p: "p = heap_start s + of_nat (heap_extent xs) + 24" and p0: "p \<noteq> 0"
      using km by auto
    have fits: "?r + 24 \<le> sz" by (rule split_fits_wf [OF wf sf fit])
    from fit_split_Some [OF fit] have bs: "bs = xs @ (sz, True) # ys" by simp
    let ?bs' = "xs @ split_spec ?r sz @ ys"
    let ?q = "if 16 \<le> sz - ?r - 24 then ?r else sz"
    from kmalloc_wf_some [OF wf n fit fits] km
    have wf': "heap_wf s' ?bs'" and u: "heap_used s' = heap_used s + of_nat ?q + 24"
      and st: "heap_start s' = heap_start s" and hs: "heap_size s' = heap_size s"
      by auto
    have ub: "used_bytes ?bs' = used_bytes bs + (?q + 24)"
      by (simp add: bs used_bytes_split_spec)
    have "heap_used s = 24 + of_nat (used_bytes bs)" using inv by (simp add: heap_inv_def)
    then have u': "heap_used s' = 24 + of_nat (used_bytes ?bs')"
      unfolding u ub by simp
    have e: "heap_extent (split_spec ?r sz) = 24 + sz" by (rule heap_extent_split_spec [OF fits])
    have up: "used_ptrs ?a ?bs' = insert (?a + heap_extent xs + 24) (used_ptrs ?a bs)"
      by (simp add: bs used_ptrs_split_spec e add.assoc)
    have pa: "p = of_nat (?a + heap_extent xs + 24)" by (simp add: p)
    have "L \<subseteq> of_nat ` used_ptrs ?a bs" using inv by (simp add: heap_inv_def)
    then have L': "insert p L \<subseteq> of_nat ` used_ptrs (unat (heap_start s')) ?bs'"
      unfolding st up pa by blast
    have al: "\<forall>x \<in> block_addrs 0 bs. 8 dvd x" using inv by (simp add: heap_inv_def)
    have "heap_extent xs \<in> block_addrs 0 bs" using fit_split_block_addr [OF fit, of 0] by simp
    then have d1: "8 dvd heap_extent xs" using al by blast
    have "8 dvd ?r" using align_size_dvd [of n] by (metis dvd_trans dvd_refl numeral_Bit0_eq_double dvd_triv_right mult.commute)
    then have d2: "8 dvd (heap_extent xs + 24 + ?r)" using d1 by simp
    have "block_addrs 0 ?bs' \<subseteq> block_addrs 0 bs \<union> {heap_extent xs + 24 + ?r}"
      using block_addrs_split_spec [of "heap_extent xs" ?r sz]
      by (auto simp: bs e add.assoc)
    then have al': "\<forall>x \<in> block_addrs 0 ?bs'. 8 dvd x" using al d2 by blast
    have sh: "\<exists>xs' q rest. ?bs' = xs' @ (q, False) # rest \<and> ?r \<le> q
                  \<and> p = heap_start s + of_nat (heap_extent xs') + 24"
    proof (cases "16 \<le> sz - ?r - 24")
      case True
      then have "?bs' = xs @ (?r, False) # ((sz - ?r - 24, True) # ys)"
        by (simp add: split_spec_def)
      then show ?thesis using p by blast
    next
      case False
      then have "?bs' = xs @ (sz, False) # ys" by (simp add: split_spec_def)
      moreover have "?r \<le> sz" using fits by simp
      ultimately show ?thesis using p by blast
    qed
    have "heap_inv s' (insert p L) ?bs'"
      using wf' u' L' al' by (simp add: heap_inv_def)
    then show ?thesis using p0 st hs sh by auto
  qed
qed

lemma heap_inv_kfree:
  assumes inv: "heap_inv s L bs" and p: "p = 0 \<or> p \<in> L"
  shows "\<exists>s' bs'. kfree s p = Some s' \<and> heap_inv s' (L - {p}) bs'
           \<and> heap_start s' = heap_start s \<and> heap_size s' = heap_size s"
proof (cases "p = 0")
  case True
  have "heap_inv s (L - {p}) bs" using inv by (auto simp: heap_inv_def)
  then show ?thesis using True by (auto simp: kfree_def)
next
  case False
  have wf: "heap_wf s bs" using inv by (simp add: heap_inv_def)
  let ?a = "unat (heap_start s)"
  have LU: "L \<subseteq> of_nat ` used_ptrs ?a bs" using inv by (simp add: heap_inv_def)
  with p False obtain x where x: "x \<in> used_ptrs ?a bs" and px: "p = of_nat x" by auto
  from used_ptrs_block_at [OF x] obtain off xs sz ys
    where at: "block_at off bs = Some (xs, (sz, False), ys)" and xo: "x = ?a + off + 24"
    by blast
  from block_at_Some [OF at] have bs: "bs = xs @ (sz, False) # ys" and off: "heap_extent xs = off"
    by simp_all
  have pe: "p = heap_start s + of_nat off + 24" by (simp add: px xo)
  let ?bs1 = "xs @ (sz, True) # ys"
  from kfree_wf(2) [OF wf at] pe
  obtain s' where kf: "kfree s p = Some s'" and wf': "heap_wf s' (merge_spec ?bs1)"
    and u: "heap_used s' = heap_used s - (of_nat sz + 24)"
    and st: "heap_start s' = heap_start s" and hs: "heap_size s' = heap_size s"
    by auto
  have "heap_used s = 24 + of_nat (used_bytes bs)" using inv by (simp add: heap_inv_def)
  then have u': "heap_used s' = 24 + of_nat (used_bytes (merge_spec ?bs1))"
    unfolding u by (simp add: bs)
  have up: "used_ptrs ?a bs = insert x (used_ptrs ?a (merge_spec ?bs1))"
    by (simp add: bs off xo add.assoc)
  have L': "L - {p} \<subseteq> of_nat ` used_ptrs (unat (heap_start s')) (merge_spec ?bs1)"
  proof
    fix q assume q: "q \<in> L - {p}"
    then obtain y where y: "y \<in> used_ptrs ?a bs" and qy: "q = of_nat y" using LU by auto
    have "y \<noteq> x" using q qy px by auto
    then have "y \<in> used_ptrs ?a (merge_spec ?bs1)" using y up by auto
    then show "q \<in> of_nat ` used_ptrs (unat (heap_start s')) (merge_spec ?bs1)"
      unfolding st qy by blast
  qed
  have al: "\<forall>x \<in> block_addrs 0 bs. 8 dvd x" using inv by (simp add: heap_inv_def)
  have "block_addrs 0 ?bs1 = block_addrs 0 bs" by (simp add: bs)
  then have "block_addrs 0 (merge_spec ?bs1) \<subseteq> block_addrs 0 bs"
    using block_addrs_merge_spec [of 0 ?bs1] by simp
  then have al': "\<forall>x \<in> block_addrs 0 (merge_spec ?bs1). 8 dvd x" using al by blast
  have "heap_inv s' (L - {p}) (merge_spec ?bs1)"
    using wf' u' L' al' by (simp add: heap_inv_def)
  then show ?thesis using kf st hs by blast
qed

lemma chain_payload_write:
  assumes ch: "chain m a (xs @ (q, f) # rest) z" and len: "length ws \<le> q"
    and bnd: "a + heap_extent (xs @ (q, f) # rest) \<le> 2 ^ 64"
  shows "chain (mem_write m (of_nat (a + heap_extent xs + 24)) ws) a (xs @ (q, f) # rest) z"
proof -
  let ?ai = "a + heap_extent xs"
  let ?w = "?ai + 24"
  let ?m' = "mem_write m (of_nat ?w) ws"
  have pre: "chain m a xs (of_nat ?ai)"
    and blk: "chain m ?ai [(q, f)] (if rest = [] then z else of_nat (?ai + 24 + q))"
    and suf: "chain m (?ai + 24 + q) rest z"
    using ch by (simp_all add: chain_append add.assoc)
  have wb: "?w + length ws \<le> 2 ^ 64" using bnd len by simp
  have pre': "chain ?m' a xs (of_nat ?ai)"
    using pre wb bnd by (intro chain_frame_write) auto
  have "?ai + 24 \<le> ?w \<or> ?w + length ws \<le> ?ai" "?ai + 24 \<le> 2 ^ 64"
    using bnd by auto
  note bw = blk_write_other [OF this(1) wb this(2), of m]
  have blk': "chain ?m' ?ai [(q, f)] (if rest = [] then z else of_nat (?ai + 24 + q))"
    using blk unfolding chain.simps bw by simp
  have suf': "chain ?m' (?ai + 24 + q) rest z"
    using suf wb bnd len by (intro chain_frame_write) auto
  show ?thesis
    using pre' blk' suf' by (simp add: chain_append add.assoc del: of_nat_add)
qed

lemma heap_inv_kcalloc:
  assumes inv: "heap_inv s L bs" and sf: "split_fits s (count * esz)"
    and nw: "count * esz \<le> align_size (count * esz)"
    and kc: "kcalloc s count esz = Some (p, s')"
  shows "\<exists>bs'. heap_inv s' (if p = 0 then L else insert p L) bs'
           \<and> heap_start s' = heap_start s \<and> heap_size s' = heap_size s"
proof -
  let ?t = "count * esz"
  from kc obtain s1 where km: "kmalloc s ?t = Some (p, s1)"
    and s': "s' = (if p \<noteq> 0 then s1\<lparr> heap_mem := mem_write (heap_mem s1) p (replicate (unat ?t) 0) \<rparr> else s1)"
    by (auto simp: kcalloc_def Let_def split: option.splits if_splits)
  from heap_inv_kmalloc [OF inv sf km]
  obtain bs' where inv1: "heap_inv s1 (if p = 0 then L else insert p L) bs'"
    and st: "heap_start s1 = heap_start s" and hs: "heap_size s1 = heap_size s"
    and sh: "p \<noteq> 0 \<longrightarrow> (\<exists>xs q rest. bs' = xs @ (q, False) # rest \<and> unat (align_size ?t) \<le> q
                  \<and> p = heap_start s + of_nat (heap_extent xs) + 24)"
    by blast
  show ?thesis
  proof (cases "p = 0")
    case True
    then show ?thesis using inv1 st hs s' by auto
  next
    case False
    from sh False obtain xs q rest where bs': "bs' = xs @ (q, False) # rest"
      and q: "unat (align_size ?t) \<le> q" and pe: "p = heap_start s + of_nat (heap_extent xs) + 24"
      by blast
    let ?a = "unat (heap_start s1)"
    have wf1: "heap_wf s1 bs'" using inv1 by (simp add: heap_inv_def)
    then have ch: "chain (heap_mem s1) ?a bs' 0" and tot: "?a + heap_extent bs' < 2 ^ 64"
      by (auto simp: heap_wf_def)
    have len: "length (replicate (unat ?t) (0 :: u8)) \<le> q"
      using q nw by (simp add: word_le_nat_alt)
    have pa: "p = of_nat (?a + heap_extent xs + 24)" by (simp add: pe st)
    have "chain (mem_write (heap_mem s1) (of_nat (?a + heap_extent xs + 24)) (replicate (unat ?t) 0)) ?a bs' 0"
      unfolding bs' using ch [unfolded bs'] len tot [unfolded bs'] by (intro chain_payload_write) auto
    then have "heap_wf s' bs'"
      using wf1 False by (simp add: s' heap_wf_def pa del: of_nat_add)
    then have "heap_inv s' (if p = 0 then L else insert p L) bs'"
      using inv1 False by (simp add: heap_inv_def s')
    then show ?thesis using st hs False by (auto simp: s')
  qed
qed

lemma heap_inv_init:
  assumes "start \<noteq> 0" "24 \<le> unat sz" "unat start + unat sz < 2 ^ 64"
  shows "heap_inv (heap_init m start sz) {} [(unat sz - 24, True)]"
  using heap_init_wf [OF assms, of m]
  by (simp add: heap_inv_def) (simp add: heap_init_def HEADER_SIZE_def)

lemma heap_reach_inv:
  "heap_reach start sz s L \<Longrightarrow> \<exists>bs. heap_inv s L bs \<and> heap_start s = start \<and> heap_size s = sz"
proof (induction rule: heap_reach.induct)
  case (reach_heap_init m)
  then show ?case
    using heap_inv_init [of start sz m] by (auto simp: heap_init_def)
next
  case (reach_kmalloc s L n p s')
  then obtain bs where "heap_inv s L bs" and e: "heap_start s = start" "heap_size s = sz" by blast
  from heap_inv_kmalloc [OF this(1) reach_kmalloc.hyps(2,3)] e show ?case by auto
next
  case (reach_kcalloc s L count esz p s')
  then obtain bs where "heap_inv s L bs" and e: "heap_start s = start" "heap_size s = sz" by blast
  from heap_inv_kcalloc [OF this(1) reach_kcalloc.hyps(2,3,4)] e show ?case by auto
next
  case (reach_kfree s L p s')
  then obtain bs where "heap_inv s L bs" and e: "heap_start s = start" "heap_size s = sz" by blast
  from heap_inv_kfree [OF this(1) reach_kfree.hyps(2)] reach_kfree.hyps(3) e show ?case by auto
qed

lemma align_size_64: "unat (align_size 64) = 64"
  by (simp add: align_size_def)

lemma kmalloc64_step:
  assumes "heap_wf s bs" and "fit_split 64 bs = Some (xs, sz, ys)" and "88 \<le> sz"
    and "heap_start s = start" and "p = start + of_nat (heap_extent xs + 24)"
    and "bs' = xs @ split_spec 64 sz @ ys"
  shows "\<exists>s'. kmalloc s 64 = Some (p, s') \<and> heap_wf s' bs' \<and> heap_start s' = start
              \<and> heap_used s' = heap_used s + of_nat (if 16 \<le> sz - 64 - 24 then 64 else sz) + 24"
proof -
  have n: "(64 :: u64) \<noteq> 0" by simp
  have fit: "fit_split (unat (align_size 64)) bs = Some (xs, sz, ys)"
    and fits: "unat (align_size 64) + 24 \<le> sz"
    using assms(2,3) by (simp_all add: align_size_64)
  have p: "start + of_nat (heap_extent xs) + 24 = p"
    by (simp add: assms(5))
  from kmalloc_wf_some [OF assms(1) n fit fits]
  have "\<exists>s'. kmalloc s 64 = Some (p, s') \<and> heap_wf s' bs'
      \<and> heap_used s' = heap_used s + of_nat (if 16 \<le> sz - 64 - 24 then 64 else sz) + 24
      \<and> heap_start s' = start \<and> heap_size s' = heap_size s"
    unfolding align_size_64 assms(6) [symmetric] assms(4) p .
  then show ?thesis by blast
qed

lemma kfree_step:
  assumes "heap_wf s bs" and "block_at off bs = Some (xs, (sz, False), ys)"
    and "heap_start s = start" and "p = start + of_nat (off + 24)"
    and "bs' = merge_spec (xs @ (sz, True) # ys)"
  shows "\<exists>s'. kfree s p = Some s' \<and> heap_wf s' bs' \<and> heap_start s' = start
              \<and> heap_used s' = heap_used s - (of_nat sz + 24)"
proof -
  have p: "start + of_nat off + 24 = p"
    by (simp add: assms(4))
  from kfree_wf(2) [OF assms(1,2)]
  have "\<not> False \<longrightarrow> (\<exists>s'. kfree s p = Some s' \<and> heap_wf s' bs'
      \<and> heap_used s' = heap_used s - (of_nat sz + 24)
      \<and> heap_start s' = start \<and> heap_size s' = heap_size s)"
    unfolding assms(5) [symmetric] assms(3) p .
  then show ?thesis by blast
qed

subsection \<open>Split and coalesce\<close>

text \<open>
  Claim C3.  From \<open>heap_init(base, 1 MiB)\<close>, for a region that is not at address 0 and
  does not wrap around the address space, \<open>a = kmalloc(64); b = kmalloc(64);
  c = kmalloc(64); kfree(b); kfree(a); kfree(c)\<close> all return, the three pointers are
  \<open>base + 24\<close>, \<open>base + 112\<close> and \<open>base + 200\<close>, and afterwards the block list is the
  single free block at \<open>base\<close> of payload size 1 MiB minus the 24 bytes of a header.
\<close>

theorem heap_split_and_coalesce:
  assumes "start \<noteq> 0" and "unat start + 2 ^ 20 < 2 ^ 64"
  shows "\<exists>s1 s2 s3 s4 s5 s6.
           kmalloc (heap_init m start 0x100000) 64 = Some (start + 24, s1)
         \<and> kmalloc s1 64 = Some (start + 112, s2)
         \<and> kmalloc s2 64 = Some (start + 200, s3)
         \<and> kfree s3 (start + 112) = Some s4
         \<and> kfree s4 (start + 24) = Some s5
         \<and> kfree s5 (start + 200) = Some s6
         \<and> heap_blocks s6 = Some [(start, 0x100000 - 24, 1)]"
proof -
  let ?s0 = "heap_init m start 0x100000"
  have st0: "heap_start ?s0 = start" by (simp add: heap_init_def)
  have wf0: "heap_wf ?s0 [(1048552, True)]"
    using heap_init_wf [of start "0x100000" m] assms by simp
  have "\<exists>s1. kmalloc ?s0 64 = Some (start + 24, s1) \<and> heap_wf s1 [(64, False), (1048464, True)] \<and> heap_start s1 = start"
    using kmalloc64_step [OF wf0, of "[]" 1048552 "[]" start "start + 24" "[(64, False), (1048464, True)]"]
    by (simp add: split_spec_def st0) blast
  then obtain s1 where k1: "kmalloc ?s0 64 = Some (start + 24, s1)"
    and wf1: "heap_wf s1 [(64, False), (1048464, True)]" and st1: "heap_start s1 = start"
    by blast
  have "\<exists>s2. kmalloc s1 64 = Some (start + 112, s2) \<and> heap_wf s2 [(64, False), (64, False), (1048376, True)] \<and> heap_start s2 = start"
    using kmalloc64_step [OF wf1, of "[(64, False)]" 1048464 "[]" start "start + 112" "[(64, False), (64, False), (1048376, True)]"]
    by (simp add: split_spec_def st1) blast
  then obtain s2 where k2: "kmalloc s1 64 = Some (start + 112, s2)"
    and wf2: "heap_wf s2 [(64, False), (64, False), (1048376, True)]" and st2: "heap_start s2 = start"
    by blast
  have "\<exists>s3. kmalloc s2 64 = Some (start + 200, s3) \<and> heap_wf s3 [(64, False), (64, False), (64, False), (1048288, True)] \<and> heap_start s3 = start"
    using kmalloc64_step [OF wf2, of "[(64, False), (64, False)]" 1048376 "[]" start "start + 200" "[(64, False), (64, False), (64, False), (1048288, True)]"]
    by (simp add: split_spec_def st2) blast
  then obtain s3 where k3: "kmalloc s2 64 = Some (start + 200, s3)"
    and wf3: "heap_wf s3 [(64, False), (64, False), (64, False), (1048288, True)]" and st3: "heap_start s3 = start"
    by blast
  have "\<exists>s4. kfree s3 (start + 112) = Some s4 \<and> heap_wf s4 [(64, False), (64, True), (64, False), (1048288, True)] \<and> heap_start s4 = start"
    using kfree_step [OF wf3, of 88 "[(64, False)]" 64 "[(64, False), (1048288, True)]" start "start + 112" "[(64, False), (64, True), (64, False), (1048288, True)]"]
    by (simp add: st3) blast
  then obtain s4 where f1: "kfree s3 (start + 112) = Some s4"
    and wf4: "heap_wf s4 [(64, False), (64, True), (64, False), (1048288, True)]" and st4: "heap_start s4 = start"
    by blast
  have "\<exists>s5. kfree s4 (start + 24) = Some s5 \<and> heap_wf s5 [(152, True), (64, False), (1048288, True)] \<and> heap_start s5 = start"
    using kfree_step [OF wf4, of 0 "[]" 64 "[(64, True), (64, False), (1048288, True)]" start "start + 24" "[(152, True), (64, False), (1048288, True)]"]
    by (simp add: st4) blast
  then obtain s5 where f2: "kfree s4 (start + 24) = Some s5"
    and wf5: "heap_wf s5 [(152, True), (64, False), (1048288, True)]" and st5: "heap_start s5 = start"
    by blast
  have "\<exists>s6. kfree s5 (start + 200) = Some s6 \<and> heap_wf s6 [(1048552, True)] \<and> heap_start s6 = start"
    using kfree_step [OF wf5, of 176 "[(152, True)]" 64 "[(1048288, True)]" start "start + 200" "[(1048552, True)]"]
    by (simp add: st5) blast
  then obtain s6 where f3: "kfree s5 (start + 200) = Some s6"
    and wf6: "heap_wf s6 [(1048552, True)]" and st6: "heap_start s6 = start"
    by blast
  have "heap_blocks s6 = Some [(start, 0x100000 - 24, 1)]"
    using heap_blocks_wf [OF wf6] by (simp add: st6)
  with k1 k2 k3 f1 f2 f3 show ?thesis by blast
qed

lemma split_fits_wfI:
  assumes wf: "heap_wf s bs" and fit: "fit_split (unat (align_size n)) bs = Some (xs, sz, ys)"
    and le: "unat (align_size n) + 24 \<le> sz"
  shows "split_fits s n"
proof -
  let ?a = "unat (heap_start s)"
  from fit_split_Some [OF fit] have bs: "bs = xs @ (sz, True) # ys" by simp
  have tot: "?a + heap_extent bs < 2 ^ 64" and ch: "chain (heap_mem s) ?a bs 0"
    using wf by (auto simp: heap_wf_def)
  have bsz: "blk_size (heap_mem s) (of_nat (?a + heap_extent xs)) = of_nat sz"
    using ch by (simp add: bs chain_append del: of_nat_add)
  have szb: "sz < 2 ^ 64" using tot by (simp add: bs)
  have ff: "find_free_block s (align_size n) = Some (of_nat (?a + heap_extent xs))"
    using find_free_block_wf [OF wf, of "align_size n"] fit by simp
  have "unat (align_size n) + 24 \<le> unat (of_nat sz :: u64)"
    using le szb by (simp add: unat_of_nat)
  then show ?thesis
    unfolding split_fits_def ff bsz [symmetric] by simp
qed

lemma dvd8_unat_add:
  fixes a b :: u64
  assumes "8 dvd unat a" "8 dvd unat b"
  shows "8 dvd unat (a + b)"
proof -
  have "(8 :: nat) dvd 2 ^ 64" by simp
  then have "8 dvd (unat a + unat b) mod 2 ^ 64"
    using assms by (simp add: dvd_mod)
  then show ?thesis by (simp add: unat_word_ariths)
qed

lemma dvd8_unat_of_nat:
  assumes "8 dvd x"
  shows "8 dvd unat (of_nat x :: u64)"
proof -
  have "(8 :: nat) dvd 2 ^ 64" by simp
  then have "8 dvd x mod 2 ^ 64" using assms by (simp add: dvd_mod)
  then show ?thesis by (simp add: unat_of_nat)
qed

lemma kmalloc_ptr_dvd8:
  assumes inv: "heap_inv s L bs" and al: "8 dvd unat (heap_start s)"
  shows "\<exists>p s'. kmalloc s n = Some (p, s') \<and> 8 dvd unat p"
proof -
  have wf: "heap_wf s bs" and blk: "\<forall>x \<in> block_addrs 0 bs. 8 dvd x"
    using inv by (simp_all add: heap_inv_def)
  from kmalloc_wf_cases [OF wf, of n]
  show ?thesis
  proof
    assume "kmalloc s n = Some (0, s)"
    then show ?thesis by simp
  next
    assume "\<exists>xs sz ys s'. n \<noteq> 0 \<and> fit_split (unat (align_size n)) bs = Some (xs, sz, ys)
              \<and> kmalloc s n = Some (heap_start s + of_nat (heap_extent xs) + 24, s')
              \<and> heap_start s + of_nat (heap_extent xs) + 24 \<noteq> 0"
    then obtain xs sz ys s' where fit: "fit_split (unat (align_size n)) bs = Some (xs, sz, ys)"
      and km: "kmalloc s n = Some (heap_start s + of_nat (heap_extent xs) + 24, s')"
      by blast
    from fit_split_block_addr [OF fit, of 0] blk have "8 dvd heap_extent xs" by simp
    then have "8 dvd unat (of_nat (heap_extent xs) :: u64)" by (rule dvd8_unat_of_nat)
    with al have "8 dvd unat (heap_start s + of_nat (heap_extent xs))" by (rule dvd8_unat_add)
    moreover have "8 dvd unat (24 :: u64)" by simp
    ultimately have "8 dvd unat (heap_start s + of_nat (heap_extent xs) + 24)"
      by (rule dvd8_unat_add)
    with km show ?thesis by blast
  qed
qed

lemma kcalloc_ptr_dvd8:
  assumes inv: "heap_inv s L bs" and al: "8 dvd unat (heap_start s)"
    and nw: "count * esz \<le> align_size (count * esz)"
  shows "\<exists>p s'. kcalloc s count esz = Some (p, s') \<and> 8 dvd unat p"
proof -
  from kmalloc_ptr_dvd8 [OF inv al, of "count * esz"]
  obtain p s' where "kmalloc s (count * esz) = Some (p, s')" "8 dvd unat p" by blast
  then show ?thesis by (simp add: kcalloc_def Let_def)
qed

subsection \<open>The heap of the kernel\<close>

lemma kernel_heap_wf:
  "heap_wf kernel_heap [(4194280, True)]" "heap_start kernel_heap = 0x400000"
  "heap_used kernel_heap = 24" "heap_size kernel_heap = 0x400000"
proof -
  show "heap_wf kernel_heap [(4194280, True)]"
    using heap_init_wf [of "0x400000" "0x400000" mem0] by (simp add: kernel_heap_def)
qed (simp_all add: kernel_heap_def heap_init_def HEADER_SIZE_def)

lemma kernel_heap_reach: "heap_reach 0x400000 0x400000 kernel_heap {}"
  unfolding kernel_heap_def by (rule reach_heap_init) simp_all

lemma reuse_s1_run:
  "kmalloc kernel_heap 64 = Some (0x400018, reuse_s1)"
  "heap_wf reuse_s1 [(64, False), (4194192, True)]" "heap_start reuse_s1 = 0x400000"
  "heap_used reuse_s1 = 112"
proof -
  from kmalloc64_step [OF kernel_heap_wf(1), of "[]" 4194280 "[]" "0x400000" "0x400018"
      "[(64, False), (4194192, True)]"]
  obtain s' where s': "kmalloc kernel_heap 64 = Some (0x400018, s')"
    "heap_wf s' [(64, False), (4194192, True)]" "heap_start s' = 0x400000" "heap_used s' = 112"
    by (simp add: split_spec_def kernel_heap_wf) blast
  then have e: "reuse_s1 = s'" by (simp add: reuse_s1_def)
  show "kmalloc kernel_heap 64 = Some (0x400018, reuse_s1)"
    "heap_wf reuse_s1 [(64, False), (4194192, True)]" "heap_start reuse_s1 = 0x400000"
    "heap_used reuse_s1 = 112"
    using s' by (simp_all add: e)
qed

lemma reuse_s2_run:
  "kmalloc reuse_s1 64 = Some (0x400070, reuse_s2)"
  "heap_wf reuse_s2 [(64, False), (64, False), (4194104, True)]" "heap_start reuse_s2 = 0x400000"
  "heap_used reuse_s2 = 200"
proof -
  from kmalloc64_step [OF reuse_s1_run(2), of "[(64, False)]" 4194192 "[]" "0x400000" "0x400070"
      "[(64, False), (64, False), (4194104, True)]"]
  obtain s' where s': "kmalloc reuse_s1 64 = Some (0x400070, s')"
    "heap_wf s' [(64, False), (64, False), (4194104, True)]" "heap_start s' = 0x400000"
    "heap_used s' = 200"
    by (simp add: split_spec_def reuse_s1_run) blast
  then have e: "reuse_s2 = s'" by (simp add: reuse_s2_def)
  show "kmalloc reuse_s1 64 = Some (0x400070, reuse_s2)"
    "heap_wf reuse_s2 [(64, False), (64, False), (4194104, True)]" "heap_start reuse_s2 = 0x400000"
    "heap_used reuse_s2 = 200"
    using s' by (simp_all add: e)
qed

lemma reuse_s3_run:
  "kfree reuse_s2 0x400018 = Some reuse_s3"
  "heap_wf reuse_s3 [(64, True), (64, False), (4194104, True)]" "heap_start reuse_s3 = 0x400000"
  "heap_used reuse_s3 = 112"
proof -
  from kfree_step [OF reuse_s2_run(2), of 0 "[]" 64 "[(64, False), (4194104, True)]" "0x400000" "0x400018"
      "[(64, True), (64, False), (4194104, True)]"]
  obtain s' where s': "kfree reuse_s2 0x400018 = Some s'"
    "heap_wf s' [(64, True), (64, False), (4194104, True)]" "heap_start s' = 0x400000"
    "heap_used s' = 112"
    by (simp add: reuse_s2_run) blast
  then have e: "reuse_s3 = s'" by (simp add: reuse_s3_def)
  show "kfree reuse_s2 0x400018 = Some reuse_s3"
    "heap_wf reuse_s3 [(64, True), (64, False), (4194104, True)]" "heap_start reuse_s3 = 0x400000"
    "heap_used reuse_s3 = 112"
    using s' by (simp_all add: e)
qed

lemma reuse_s1_reach: "heap_reach 0x400000 0x400000 reuse_s1 {0x400018}"
proof -
  have "split_fits kernel_heap 64"
    by (rule split_fits_wfI [OF kernel_heap_wf(1), of _ "[]" 4194280 "[]"]) (simp_all add: align_size_64)
  from reach_kmalloc [OF kernel_heap_reach this reuse_s1_run(1)] show ?thesis by simp
qed

lemma reuse_s2_reach: "heap_reach 0x400000 0x400000 reuse_s2 {0x400018, 0x400070}"
proof -
  have "split_fits reuse_s1 64"
    by (rule split_fits_wfI [OF reuse_s1_run(2), of _ "[(64, False)]" 4194192 "[]"]) (simp_all add: align_size_64)
  from reach_kmalloc [OF reuse_s1_reach this reuse_s2_run(1)] show ?thesis
    by (simp add: insert_commute)
qed

lemma reuse_s3_reach: "heap_reach 0x400000 0x400000 reuse_s3 {0x400070}"
proof -
  from reach_kfree [OF reuse_s2_reach _ reuse_s3_run(1)] show ?thesis by simp
qed

text \<open>The run of claim C3 on a region at \<open>0x400000\<close> of a memory of zero bytes.\<close>

theorem heap_split_and_coalesce_witness:
  "(0x400000 :: u64) \<noteq> 0 \<and> unat (0x400000 :: u64) + 2 ^ 20 < (2 :: nat) ^ 64
   \<and> (\<exists>s1 s2 s3 s4 s5 s6.
           kmalloc (heap_init mem0 0x400000 0x100000) 64 = Some (0x400018, s1)
         \<and> kmalloc s1 64 = Some (0x400070, s2)
         \<and> kmalloc s2 64 = Some (0x4000C8, s3)
         \<and> kfree s3 0x400070 = Some s4
         \<and> kfree s4 0x400018 = Some s5
         \<and> kfree s5 0x4000C8 = Some s6
         \<and> heap_blocks s6 = Some [(0x400000, 0xFFFE8, 1)])"
  using heap_split_and_coalesce [of "0x400000" mem0] by simp

subsection \<open>The used-byte counter\<close>

text \<open>
  Claim C5.  In every state reached from \<open>heap_init\<close> by \<open>kmalloc\<close>, \<open>kcalloc\<close> and
  \<open>kfree\<close> (as \<open>heap_reach\<close> has them), the walk over the block list returns and the
  used-byte counter of \<open>heap_stats\<close> is the size of one header plus the sum of header
  size plus payload size over the blocks that are not free.
\<close>

theorem heap_used_counter:
  assumes "heap_reach start sz s L"
  shows "\<exists>bl. heap_blocks s = Some bl \<and> fst (snd (heap_stats s)) = HEADER_SIZE + used_sum bl"
proof -
  from heap_reach_inv [OF assms] obtain bs where inv: "heap_inv s L bs" by blast
  then have wf: "heap_wf s bs" and u: "heap_used s = 24 + of_nat (used_bytes bs)"
    by (simp_all add: heap_inv_def)
  have "heap_blocks s = Some (blocks_of (unat (heap_start s)) bs)"
    using wf by (rule heap_blocks_wf)
  moreover have "fst (snd (heap_stats s)) = HEADER_SIZE + used_sum (blocks_of (unat (heap_start s)) bs)"
    by (simp add: heap_stats_def u used_sum_blocks_of HEADER_SIZE_def)
  ultimately show ?thesis by blast
qed

text \<open>The counter after \<open>a = kmalloc(64); b = kmalloc(64); kfree(a)\<close> on the kernel's heap.\<close>

theorem heap_used_counter_witness:
  "heap_reach 0x400000 0x400000 reuse_s3 {0x400070}
   \<and> (\<exists>bl. heap_blocks reuse_s3 = Some bl \<and> fst (snd (heap_stats reuse_s3)) = HEADER_SIZE + used_sum bl)"
  using heap_used_counter [OF reuse_s3_reach] reuse_s3_reach by simp

text \<open>
  Right after \<open>heap_init\<close> the only block is free, so the sum over the blocks that are
  not free is 0, and the counter is 24.
\<close>

theorem heap_used_counter_counterexample:
  "heap_blocks kernel_heap = Some [(0x400000, 0x3FFFE8, 1)]
   \<and> fst (snd (heap_stats kernel_heap)) = 24
   \<and> used_sum [(0x400000, 0x3FFFE8, 1)] = 0"
  using heap_blocks_wf [OF kernel_heap_wf(1)]
  by (simp add: kernel_heap_wf heap_stats_def used_sum_def)

subsection \<open>Alignment of the pointers returned\<close>

text \<open>
  Claim C2.  Let the heap be set up by \<open>heap_init\<close> on a region that is not at address
  0, holds a header and does not wrap around the address space, at a base address that
  is a multiple of 8 (so also at one that is a multiple of 16).  In every state reached
  from there by the calls of \<open>heap_reach\<close> (\<open>kmalloc\<close> and \<open>kcalloc\<close> whose chosen block
  holds the rounded request and a header, \<open>kcalloc\<close> with a total that the rounding to a
  multiple of 16 does not wrap, \<open>kfree\<close> of the null pointer or of a pointer handed out
  and not yet freed), \<open>kmalloc\<close> returns for every request and the pointer it returns
  is a multiple of 8; so does \<open>kcalloc\<close> for every total \<open>count * size\<close> that the rounding
  does not wrap, that is every total up to \<open>2^64 - 16\<close>.
\<close>

theorem kmalloc_pointer_alignment:
  assumes "heap_reach start sz s L" and "8 dvd unat start"
  shows "(\<exists>p s'. kmalloc s n = Some (p, s') \<and> 8 dvd unat p)
       \<and> (count * esz \<le> align_size (count * esz) \<longrightarrow>
            (\<exists>p s'. kcalloc s count esz = Some (p, s') \<and> 8 dvd unat p))"
proof -
  from heap_reach_inv [OF assms(1)] obtain bs where inv: "heap_inv s L bs"
    and st: "heap_start s = start" by blast
  have al: "8 dvd unat (heap_start s)" using assms(2) by (simp add: st)
  show ?thesis
    using kmalloc_ptr_dvd8 [OF inv al, of n] kcalloc_ptr_dvd8 [OF inv al, of count esz]
    by blast
qed

text \<open>
  The second allocation on the kernel's heap, and \<open>kcalloc(4, 16)\<close> in the same state:
  the total 64 is its own rounding.
\<close>

theorem kmalloc_pointer_alignment_witness:
  "heap_reach 0x400000 0x400000 reuse_s1 {0x400018} \<and> 8 dvd unat (0x400000 :: u64)
   \<and> (4 * 16 :: u64) \<le> align_size (4 * 16)
   \<and> kmalloc reuse_s1 64 = Some (0x400070, reuse_s2)
   \<and> (\<exists>p s'. kmalloc reuse_s1 64 = Some (p, s') \<and> 8 dvd unat p)
   \<and> (\<exists>p s'. kcalloc reuse_s1 4 16 = Some (p, s') \<and> 8 dvd unat p)"
proof -
  have nw: "(4 * 16 :: u64) \<le> align_size (4 * 16)"
    by (simp add: align_size_def)
  from kmalloc_pointer_alignment [OF reuse_s1_reach, of 64 4 16] nw
  have "(\<exists>p s'. kmalloc reuse_s1 64 = Some (p, s') \<and> 8 dvd unat p)
      \<and> (\<exists>p s'. kcalloc reuse_s1 4 16 = Some (p, s') \<and> 8 dvd unat p)"
    by simp
  with nw reuse_s1_reach reuse_s2_run(1) show ?thesis by simp
qed

text \<open>
  The first pointer handed out on the kernel's heap, whose base \<open>0x400000\<close> is a multiple
  of 16, is \<open>0x400018\<close>: a header is 24 bytes.
\<close>

theorem kmalloc_pointer_alignment_counterexample:
  "heap_reach 0x400000 0x400000 kernel_heap {}
   \<and> 16 dvd unat (0x400000 :: u64)
   \<and> kmalloc kernel_heap 64 = Some (0x400018, reuse_s1)
   \<and> \<not> 16 dvd unat (0x400018 :: u64)"
  using kernel_heap_reach reuse_s1_run(1) by simp

text \<open>
  \<open>split_block\<close> on a block that holds the request but not a header behind it: the
  subtraction wraps around, the test \<open>remaining >= MIN_BLOCK_SIZE\<close> succeeds and a
  header is stored \<open>r\<close> bytes behind the block's own.
\<close>

lemma split_block_wrapped:
  fixes a r sz :: nat
  assumes hs: "blk_size m (of_nat a) = of_nat sz" and le: "r \<le> sz" and lt: "sz < r + 24"
    and bound: "a + 24 + r + 24 \<le> 2 ^ 64"
  defines "m' \<equiv> split_block m (of_nat a) (of_nat r)"
  shows "blk_size m' (of_nat (a + 24 + r)) = of_nat sz - of_nat r - 24"
    and "blk_free m' (of_nat (a + 24 + r)) = 1"
    and "blk_next m' (of_nat (a + 24 + r)) = blk_next m (of_nat a)"
    and "blk_size m' (of_nat a) = of_nat r"
    and "blk_free m' (of_nat a) = blk_free m (of_nat a)"
    and "blk_next m' (of_nat a) = of_nat (a + 24 + r)"
proof -
  let ?A = "of_nat a :: u64"
  let ?nb = "a + 24 + r"
  let ?N = "of_nat ?nb :: u64"
  let ?rem = "of_nat sz - of_nat r - 24 :: u64"
  obtain d where d: "sz = r + d" using le by (metis le_Suc_ex)
  have d24: "d < 24" using lt d by simp
  have "?rem = of_nat d - 24" by (simp add: d)
  moreover have "unat (of_nat d :: u64) = d" using d24 by (simp add: unat_of_nat)
  ultimately have "unat ?rem = 2 ^ 64 + d - 24"
    using d24 by (simp add: unat_sub_if')
  then have big: "(16 :: u64) \<le> ?rem"
    by (simp add: word_le_nat_alt)
  have a24: "a + 24 \<le> 2 ^ 64" and nb24: "?nb + 24 \<le> 2 ^ 64"
    and sep: "a + 24 \<le> ?nb \<or> ?nb + 24 \<le> a" and sep': "?nb + 24 \<le> a \<or> a + 24 \<le> ?nb"
    using bound by auto
  have nbe: "?A + 24 + of_nat r = ?N" by simp
  define m1 where "m1 = set_size m ?N ?rem"
  define m2 where "m2 = set_free m1 ?N 1"
  define m3 where "m3 = set_next m2 ?N (blk_next m2 ?A)"
  define m4 where "m4 = set_size m3 ?A (of_nat r)"
  have e: "m' = set_next m4 ?A ?N"
    unfolding m'_def split_block_def HEADER_SIZE_def MIN_BLOCK_SIZE_def Let_def hs nbe
    using big by (simp only: m1_def m2_def m3_def m4_def if_True)
  note o = blk_set_other [OF sep a24 nb24] blk_set_other [OF sep' nb24 a24]
  note sb = blk_set_same_block [OF a24] blk_set_same_block [OF nb24]
  have n2: "blk_next m2 ?A = blk_next m ?A"
    by (simp only: m2_def m1_def o)
  show "blk_size m' ?N = ?rem"
    by (simp only: e m4_def m3_def m2_def m1_def o sb blk_same)
  show "blk_free m' ?N = 1"
    by (simp only: e m4_def m3_def m2_def o sb blk_same)
  show "blk_next m' ?N = blk_next m ?A"
    by (simp only: e m4_def m3_def o n2 blk_same)
  show "blk_size m' ?A = of_nat r"
    by (simp only: e m4_def sb blk_same)
  show "blk_free m' ?A = blk_free m ?A"
    by (simp only: e m4_def m3_def m2_def m1_def o sb)
  show "blk_next m' ?A = ?N"
    by (simp only: e blk_same)
qed

text \<open>The headers of the kernel's heap after \<open>a = kmalloc(64); b = kmalloc(64); kfree(a)\<close>.\<close>

lemma reuse_s3_headers:
  "blk_size (heap_mem reuse_s3) 0x400000 = 64"
  "blk_free (heap_mem reuse_s3) 0x400000 = 1"
  "blk_next (heap_mem reuse_s3) 0x400000 = 0x400058"
  "blk_size (heap_mem reuse_s3) 0x400058 = 64"
  "blk_free (heap_mem reuse_s3) 0x400058 = 0"
  "blk_next (heap_mem reuse_s3) 0x400058 = 0x4000B0"
  using reuse_s3_run(2) by (simp_all add: heap_wf_def reuse_s3_run(3))

lemma reuse_s3_find: "find_free_block reuse_s3 (align_size 64) = Some 0x400000"
  using find_free_block_wf [OF reuse_s3_run(2), of "align_size 64"]
  by (simp add: align_size_64 reuse_s3_run(3))

lemma reuse_s4_run:
  "kmalloc reuse_s3 64 = Some (0x400018, reuse_s4)"
  "heap_start reuse_s4 = 0x400000"
  "blk_size (heap_mem reuse_s4) 0x400000 = 64"
  "blk_free (heap_mem reuse_s4) 0x400000 = 0"
  "blk_next (heap_mem reuse_s4) 0x400000 = 0x400058"
  "blk_size (heap_mem reuse_s4) 0x400058 = 0xFFFFFFFFFFFFFFE8"
  "blk_free (heap_mem reuse_s4) 0x400058 = 1"
  "blk_next (heap_mem reuse_s4) 0x400058 = 0x400058"
proof -
  let ?m = "heap_mem reuse_s3"
  define m1 where "m1 = split_block ?m 0x400000 64"
  define m2 where "m2 = set_free m1 0x400000 0"
  have a64: "align_size 64 = 64" by (simp add: align_size_def)
  have km: "kmalloc reuse_s3 64 =
      Some (0x400018, reuse_s3\<lparr> heap_mem := m2, heap_used := heap_used reuse_s3 + (blk_size m2 0x400000 + 24) \<rparr>)"
    using reuse_s3_find
    by (simp add: kmalloc_def Let_def a64 HEADER_SIZE_def m1_def m2_def)
  then have mem: "heap_mem reuse_s4 = m2" and st: "heap_start reuse_s4 = 0x400000"
    by (simp_all add: reuse_s4_def reuse_s3_run(3))
  have hs: "blk_size ?m (of_nat 4194304) = of_nat 64"
    by (simp add: reuse_s3_headers)
  have m1e: "m1 = split_block ?m (of_nat 4194304) (of_nat 64)"
    by (simp add: m1_def)
  note w = split_block_wrapped [OF hs, of 64, folded m1e]
  have w1: "blk_size m1 0x400058 = 0xFFFFFFFFFFFFFFE8" "blk_free m1 0x400058 = 1"
    "blk_next m1 0x400058 = 0x400058" "blk_size m1 0x400000 = 64" "blk_next m1 0x400000 = 0x400058"
    using w by (simp_all add: reuse_s3_headers)
  have o: "blk_size (set_free m1 (of_nat 4194304) 0) (of_nat 4194392) = blk_size m1 (of_nat 4194392)"
    "blk_free (set_free m1 (of_nat 4194304) 0) (of_nat 4194392) = blk_free m1 (of_nat 4194392)"
    "blk_next (set_free m1 (of_nat 4194304) 0) (of_nat 4194392) = blk_next m1 (of_nat 4194392)"
    by (rule blk_set_other; simp)+
  have sb: "blk_size (set_free m1 (of_nat 4194304) 0) (of_nat 4194304) = blk_size m1 (of_nat 4194304)"
    "blk_next (set_free m1 (of_nat 4194304) 0) (of_nat 4194304) = blk_next m1 (of_nat 4194304)"
    by (rule blk_set_same_block; simp)+
  show "kmalloc reuse_s3 64 = Some (0x400018, reuse_s4)"
    using km by (simp add: reuse_s4_def)
  show "heap_start reuse_s4 = 0x400000" by (rule st)
  show "blk_size (heap_mem reuse_s4) 0x400000 = 64"
    using sb(1) w1 by (simp add: mem m2_def)
  show "blk_free (heap_mem reuse_s4) 0x400000 = 0"
    by (simp add: mem m2_def)
  show "blk_next (heap_mem reuse_s4) 0x400000 = 0x400058"
    using sb(2) w1 by (simp add: mem m2_def)
  show "blk_size (heap_mem reuse_s4) 0x400058 = 0xFFFFFFFFFFFFFFE8"
    using o(1) w1 by (simp add: mem m2_def)
  show "blk_free (heap_mem reuse_s4) 0x400058 = 1"
    using o(2) w1 by (simp add: mem m2_def)
  show "blk_next (heap_mem reuse_s4) 0x400058 = 0x400058"
    using o(3) w1 by (simp add: mem m2_def)
qed

lemma reuse_s4_again: "\<exists>s'. kmalloc reuse_s4 64 = Some (0x400070, s')"
proof -
  have a64: "align_size 64 = 64" by (simp add: align_size_def)
  have "find_free_block_loop (heap_mem reuse_s4) 64 0x400058 = Some 0x400058"
    by (subst find_free_block_loop.simps) (simp add: reuse_s4_run)
  then have "find_free_block_loop (heap_mem reuse_s4) 64 0x400000 = Some 0x400058"
    by (subst find_free_block_loop.simps) (simp add: reuse_s4_run)
  then have "find_free_block reuse_s4 (align_size 64) = Some 0x400058"
    by (simp add: find_free_block_def a64 reuse_s4_run(2))
  then show ?thesis
    by (simp add: kmalloc_def Let_def HEADER_SIZE_def)
qed

subsection \<open>An exact fit is split\<close>

text \<open>
  Claim C1.  On the kernel's heap, after \<open>a = kmalloc(64); b = kmalloc(64); kfree(a)\<close>
  the list is a free block of 64 bytes at \<open>0x400000\<close>, the block of \<open>b\<close> at
  \<open>0x400058\<close> in use, and the free rest.  The next \<open>kmalloc(64)\<close> chooses the first
  block, an exact fit for the rounded request 64.  It is not left as it was: the split
  is carried out and stores a header at \<open>0x400058\<close>, over the header of \<open>b\<close>, with
  size \<open>2^64 - 24\<close>, marked free and with itself as successor.  One more \<open>kmalloc(64)\<close>
  returns \<open>0x400070\<close>, the pointer \<open>b\<close> that is still in use.
\<close>

theorem kmalloc_exact_fit_splits:
  "kmalloc kernel_heap 64 = Some (0x400018, reuse_s1)
   \<and> kmalloc reuse_s1 64 = Some (0x400070, reuse_s2)
   \<and> kfree reuse_s2 0x400018 = Some reuse_s3
   \<and> heap_blocks reuse_s3 = Some [(0x400000, 64, 1), (0x400058, 64, 0), (0x4000B0, 0x3FFF38, 1)]
   \<and> align_size 64 = 64
   \<and> find_free_block reuse_s3 (align_size 64) = Some 0x400000
   \<and> kmalloc reuse_s3 64 = Some (0x400018, reuse_s4)
   \<and> blk_size (heap_mem reuse_s4) 0x400000 = 64
   \<and> blk_free (heap_mem reuse_s4) 0x400000 = 0
   \<and> blk_next (heap_mem reuse_s4) 0x400000 = 0x400058
   \<and> blk_size (heap_mem reuse_s4) 0x400058 = 0xFFFFFFFFFFFFFFE8
   \<and> blk_free (heap_mem reuse_s4) 0x400058 = 1
   \<and> blk_next (heap_mem reuse_s4) 0x400058 = 0x400058
   \<and> (\<exists>s'. kmalloc reuse_s4 64 = Some (0x400070, s'))"
proof -
  have "heap_blocks reuse_s3 = Some [(0x400000, 64, 1), (0x400058, 64, 0), (0x4000B0, 0x3FFF38, 1)]"
    using heap_blocks_wf [OF reuse_s3_run(2)] by (simp add: reuse_s3_run(3))
  moreover have "align_size 64 = 64" by (simp add: align_size_def)
  ultimately show ?thesis
    using reuse_s1_run(1) reuse_s2_run(1) reuse_s3_run(1) reuse_s3_find reuse_s4_run reuse_s4_again
    by (simp only: simp_thms)
qed

section \<open>Virtio network driver: proofs\<close>

lemma vio_send_result:
  assumes init: "virtio_initialized s \<noteq> 0"
    and fits: "unat len + 10 \<le> 2048"
    and data: "unat len \<le> length data"
    and ok: "virtq_ok (tx_queue s)"
    and idx: "tx_idx s < unat (vq_size (tx_queue s))"
  shows "virtio_net_send s data len =
     Inr (0,
       s\<lparr> tx_queue := (tx_queue s)\<lparr>
              vq_desc := (vq_desc (tx_queue s))[tx_idx s :=
                 \<lparr> d_addr = vq_buffers (tx_queue s) ! tx_idx s, d_len = of_nat VIRTIO_NET_HDR_SIZE + ucast len,
                   d_flags = 0, d_next = 0 \<rparr>],
              vq_avail_ring := (vq_avail_ring (tx_queue s))
                 [unat (vq_avail_idx (tx_queue s)) mod unat (vq_size (tx_queue s)) := of_nat (tx_idx s)],
              vq_avail_idx := vq_avail_idx (tx_queue s) + 1 \<rparr>,
          tx_idx := (tx_idx s + 1) mod unat (vq_size (tx_queue s)),
          net_mem := mem_write (mem_write (net_mem s) (vq_buffers (tx_queue s) ! tx_idx s) (replicate VIRTIO_NET_HDR_SIZE 0))
                       (vq_buffers (tx_queue s) ! tx_idx s + of_nat VIRTIO_NET_HDR_SIZE) (take (unat len) data),
          vio_log := vio_log s @
             [Ev_buf_write (vq_buffers (tx_queue s) ! tx_idx s) (replicate VIRTIO_NET_HDR_SIZE 0),
              Ev_buf_write (vq_buffers (tx_queue s) ! tx_idx s + of_nat VIRTIO_NET_HDR_SIZE) (take (unat len) data),
              Ev_desc_write (tx_idx s)
                 \<lparr> d_addr = vq_buffers (tx_queue s) ! tx_idx s, d_len = of_nat VIRTIO_NET_HDR_SIZE + ucast len,
                   d_flags = 0, d_next = 0 \<rparr>,
              Ev_avail_ring (unat (vq_avail_idx (tx_queue s)) mod unat (vq_size (tx_queue s))) (of_nat (tx_idx s)),
              Ev_avail_idx (vq_avail_idx (tx_queue s) + 1),
              Ev_outw (io_base s + VIRTIO_PCI_QUEUE_NOTIFY) 1] \<rparr>)"
proof -
  have sz: "vq_size (tx_queue s) \<noteq> 0" "0 < unat (vq_size (tx_queue s))"
    using ok by (simp_all add: virtq_ok_def unat_gt_0)
  have slot: "unat (vq_avail_idx (tx_queue s)) mod unat (vq_size (tx_queue s)) < length (vq_avail_ring (tx_queue s))"
    using ok sz by (simp add: virtq_ok_def)
  have lens: "tx_idx s < length (vq_buffers (tx_queue s))" "tx_idx s < length (vq_desc (tx_queue s))"
    using ok idx by (simp_all add: virtq_ok_def)
  have c: "\<not> unat len > NET_BUFFER_SIZE - VIRTIO_NET_HDR_SIZE"
    using fits by (simp add: NET_BUFFER_SIZE_def VIRTIO_NET_HDR_SIZE_def)
  show ?thesis
    using init c data sz slot lens
    by (simp add: virtio_net_send_def Let_def)
qed

lemma VIRTIO_NET_HDR_SIZE_val: "VIRTIO_NET_HDR_SIZE = 10"
  by (simp add: VIRTIO_NET_HDR_SIZE_def)

lemma vio_send_mem:
  fixes len :: u16 and m :: "u64 \<Rightarrow> u8" and buf :: u64
  assumes "unat len \<le> length data"
  defines "m2 \<equiv> mem_write (mem_write m buf (replicate 10 0)) (buf + 10) (take (unat len) data)"
  shows "mem_read m2 buf 10 = replicate 10 0"
    and "mem_read m2 (buf + 10) (unat len) = take (unat len) data"
proof -
  have l: "length (take (unat len) data) = unat len" using assms(1) by simp
  have b: "unat len < 65536" using unsigned_less [of len, where 'a = nat] by simp
  have "mem_read (mem_write (mem_write m buf (replicate 10 0)) (buf + of_nat 10) (take (unat len) data)) buf 10
        = mem_read (mem_write m buf (replicate 10 0)) buf 10"
    using l b by (intro mem_read_write_before) simp_all
  also have "\<dots> = replicate 10 0"
    using mem_read_write_same [of "replicate 10 0" m buf] by simp
  finally show "mem_read m2 buf 10 = replicate 10 0" by (simp add: m2_def)
  show "mem_read m2 (buf + 10) (unat len) = take (unat len) data"
    using mem_read_write_same [of "take (unat len) data" "mem_write m buf (replicate 10 0)" "buf + 10"] l b
    by (simp add: m2_def)
qed

lemma vio_send_step:
  assumes init: "virtio_initialized s \<noteq> 0"
    and fits: "unat len + 10 \<le> 2048"
    and data: "unat len \<le> length data"
    and ok: "virtq_ok (tx_queue s)"
    and idx: "tx_idx s < unat (vq_size (tx_queue s))"
  shows "\<exists>s'. virtio_net_send s data len = Inr (0, s') \<and>
     (let q = tx_queue s; q' = tx_queue s'; i = tx_idx s; buf = vq_buffers q ! i;
          slot = unat (vq_avail_idx q) mod unat (vq_size q);
          d = \<lparr> d_addr = buf, d_len = 10 + ucast len, d_flags = 0, d_next = 0 \<rparr>
      in vq_avail_ring q' ! slot = of_nat i
       \<and> vq_desc q' ! i = d
       \<and> mem_read (net_mem s') buf 10 = replicate 10 0
       \<and> mem_read (net_mem s') (buf + 10) (unat len) = take (unat len) data
       \<and> vq_avail_idx q' = vq_avail_idx q + 1
       \<and> unat (vq_avail_idx q') = (unat (vq_avail_idx q) + 1) mod 65536
       \<and> vio_log s' = vio_log s @
            [Ev_buf_write buf (replicate 10 0),
             Ev_buf_write (buf + 10) (take (unat len) data),
             Ev_desc_write i d,
             Ev_avail_ring slot (of_nat i),
             Ev_avail_idx (vq_avail_idx q + 1),
             Ev_outw (io_base s + 0x10) 1]
       \<and> tx_idx s' = (i + 1) mod unat (vq_size q)
       \<and> virtio_initialized s' \<noteq> 0 \<and> virtq_ok q' \<and> tx_idx s' < unat (vq_size q')
       \<and> vq_size q' = vq_size q)"
proof -
  let ?q = "tx_queue s"
  have sz: "0 < unat (vq_size ?q)"
    using ok by (simp add: virtq_ok_def unat_gt_0)
  have slot: "unat (vq_avail_idx ?q) mod unat (vq_size ?q) < length (vq_avail_ring ?q)"
    using ok sz by (simp add: virtq_ok_def)
  have lens: "tx_idx s < length (vq_desc ?q)"
    using ok idx by (simp add: virtq_ok_def)
  note m = vio_send_mem [OF data, of "net_mem s" "vq_buffers ?q ! tx_idx s"]
  have w: "unat (vq_avail_idx ?q + 1) = (unat (vq_avail_idx ?q) + 1) mod 65536"
    by (simp add: unat_word_ariths)
  show ?thesis
    unfolding vio_send_result [OF init fits data ok idx]
    using slot lens sz init ok m w
    by (simp add: Let_def VIRTIO_NET_HDR_SIZE_val VIRTIO_PCI_QUEUE_NOTIFY_def virtq_ok_def)
qed


lemma vio_send_all_rotates:
  assumes "virtio_initialized s \<noteq> 0" "virtq_ok (tx_queue s)" "tx_idx s < unat (vq_size (tx_queue s))"
    and "\<forall>p \<in> set ps. length p + 10 \<le> 2048"
  shows "\<exists>s'. virtio_send_all s ps = Inr (replicate (length ps) 0, s')
           \<and> tx_idx s' = (tx_idx s + length ps) mod unat (vq_size (tx_queue s))
           \<and> vq_avail_idx (tx_queue s') = vq_avail_idx (tx_queue s) + of_nat (length ps)"
  using assms
proof (induction ps arbitrary: s)
  case Nil
  then show ?case by simp
next
  case (Cons p ps)
  let ?len = "of_nat (length p) :: u16"
  have lp: "length p + 10 \<le> 2048" using Cons.prems(4) by simp
  then have u: "unat ?len = length p" by (simp add: unat_of_nat)
  from vio_send_step [OF Cons.prems(1), of ?len p] lp u Cons.prems(2,3)
  obtain s1 where s1: "virtio_net_send s p ?len = Inr (0, s1)"
    and a1: "vq_avail_idx (tx_queue s1) = vq_avail_idx (tx_queue s) + 1"
    and t1: "tx_idx s1 = (tx_idx s + 1) mod unat (vq_size (tx_queue s))"
    and i1: "virtio_initialized s1 \<noteq> 0" and ok1: "virtq_ok (tx_queue s1)"
    and b1: "tx_idx s1 < unat (vq_size (tx_queue s1))"
    and sz: "vq_size (tx_queue s1) = vq_size (tx_queue s)"
    by (auto simp: Let_def)
  from Cons.IH [OF i1 ok1 b1] Cons.prems(4)
  obtain s' where r: "virtio_send_all s1 ps = Inr (replicate (length ps) 0, s')"
    and t: "tx_idx s' = (tx_idx s1 + length ps) mod unat (vq_size (tx_queue s1))"
    and a: "vq_avail_idx (tx_queue s') = vq_avail_idx (tx_queue s1) + of_nat (length ps)"
    by auto
  have "tx_idx s' = (tx_idx s + length (p # ps)) mod unat (vq_size (tx_queue s))"
    unfolding t t1 sz by (simp add: mod_add_left_eq)
  moreover have "vq_avail_idx (tx_queue s') = vq_avail_idx (tx_queue s) + of_nat (length (p # ps))"
    unfolding a a1 by simp
  ultimately show ?case
    using s1 r by simp
qed

text \<open>
  Claim C7.  With the driver initialised, a payload of at most 2038 bytes (it fits the
  2048-byte slot after the 10-byte header) and a well-formed TX queue, the call returns 0
  and: the ring entry \<open>avail.ring[avail.idx mod size]\<close> holds the current slot index;
  the slot's descriptor is \<open>{addr = slot buffer, len = 10 + payload length, flags = 0,
  next = 0}\<close>; the buffer holds ten zero bytes followed by the payload; \<open>avail.idx\<close>
  has advanced by one modulo \<open>2^16\<close>; the stores were made in the order buffer,
  descriptor, ring entry, \<open>avail.idx\<close>, and the doorbell (port \<open>io_base + 0x10\<close>,
  value 1) was written last.  Over any sequence of such calls the slot index is the
  starting index plus the number of calls, modulo the queue size.
\<close>

theorem virtio_net_send_publishes:
  assumes init: "virtio_initialized s \<noteq> 0"
    and fits: "unat len + 10 \<le> 2048"
    and data: "unat len \<le> length data"
    and ok: "virtq_ok (tx_queue s)"
    and idx: "tx_idx s < unat (vq_size (tx_queue s))"
  shows "(\<exists>s'. virtio_net_send s data len = Inr (0, s') \<and>
     (let q = tx_queue s; q' = tx_queue s'; i = tx_idx s; buf = vq_buffers q ! i;
          slot = unat (vq_avail_idx q) mod unat (vq_size q);
          d = \<lparr> d_addr = buf, d_len = 10 + ucast len, d_flags = 0, d_next = 0 \<rparr>
      in vq_avail_ring q' ! slot = of_nat i
       \<and> vq_desc q' ! i = d
       \<and> mem_read (net_mem s') buf 10 = replicate 10 0
       \<and> mem_read (net_mem s') (buf + 10) (unat len) = take (unat len) data
       \<and> vq_avail_idx q' = vq_avail_idx q + 1
       \<and> unat (vq_avail_idx q') = (unat (vq_avail_idx q) + 1) mod 65536
       \<and> vio_log s' = vio_log s @
            [Ev_buf_write buf (replicate 10 0),
             Ev_buf_write (buf + 10) (take (unat len) data),
             Ev_desc_write i d,
             Ev_avail_ring slot (of_nat i),
             Ev_avail_idx (vq_avail_idx q + 1),
             Ev_outw (io_base s + 0x10) 1]
       \<and> tx_idx s' = (i + 1) mod unat (vq_size q)))
   \<and> (\<forall>ps. (\<forall>p \<in> set ps. length p + 10 \<le> 2048) \<longrightarrow>
         (\<exists>s'. virtio_send_all s ps = Inr (replicate (length ps) 0, s')
             \<and> tx_idx s' = (tx_idx s + length ps) mod unat (vq_size (tx_queue s))
             \<and> vq_avail_idx (tx_queue s') = vq_avail_idx (tx_queue s) + of_nat (length ps)))"
proof (intro conjI allI impI)
  from vio_send_step [OF init fits data ok idx]
  show "\<exists>s'. virtio_net_send s data len = Inr (0, s') \<and>
     (let q = tx_queue s; q' = tx_queue s'; i = tx_idx s; buf = vq_buffers q ! i;
          slot = unat (vq_avail_idx q) mod unat (vq_size q);
          d = \<lparr> d_addr = buf, d_len = 10 + ucast len, d_flags = 0, d_next = 0 \<rparr>
      in vq_avail_ring q' ! slot = of_nat i
       \<and> vq_desc q' ! i = d
       \<and> mem_read (net_mem s') buf 10 = replicate 10 0
       \<and> mem_read (net_mem s') (buf + 10) (unat len) = take (unat len) data
       \<and> vq_avail_idx q' = vq_avail_idx q + 1
       \<and> unat (vq_avail_idx q') = (unat (vq_avail_idx q) + 1) mod 65536
       \<and> vio_log s' = vio_log s @
            [Ev_buf_write buf (replicate 10 0),
             Ev_buf_write (buf + 10) (take (unat len) data),
             Ev_desc_write i d,
             Ev_avail_ring slot (of_nat i),
             Ev_avail_idx (vq_avail_idx q + 1),
             Ev_outw (io_base s + 0x10) 1]
       \<and> tx_idx s' = (i + 1) mod unat (vq_size q))"
    by (auto simp: Let_def)
next
  fix ps :: "u8 list list"
  assume "\<forall>p \<in> set ps. length p + 10 \<le> 2048"
  then show "\<exists>s'. virtio_send_all s ps = Inr (replicate (length ps) 0, s')
             \<and> tx_idx s' = (tx_idx s + length ps) mod unat (vq_size (tx_queue s))
             \<and> vq_avail_idx (tx_queue s') = vq_avail_idx (tx_queue s) + of_nat (length ps)"
    by (rule vio_send_all_rotates [OF init ok idx])
qed

lemma vio_ready_ok:
  "virtio_initialized vio_ready \<noteq> 0" "virtq_ok (tx_queue vio_ready)" "virtq_ok (rx_queue vio_ready)"
  "tx_idx vio_ready < unat (vq_size (tx_queue vio_ready))"
  by (simp_all add: vio_ready_def vio_queue16_def virtq_ok_def)

theorem virtio_net_send_publishes_witness:
  "virtio_initialized vio_ready \<noteq> 0 \<and> unat (3 :: u16) + 10 \<le> 2048
   \<and> unat (3 :: u16) \<le> length [0xAA, 0xBB, 0xCC :: u8]
   \<and> virtq_ok (tx_queue vio_ready) \<and> tx_idx vio_ready < unat (vq_size (tx_queue vio_ready))
   \<and> (\<exists>s'. virtio_net_send vio_ready [0xAA, 0xBB, 0xCC] 3 = Inr (0, s')
         \<and> vq_avail_ring (tx_queue s') ! 0 = 0
         \<and> vq_desc (tx_queue s') ! 0 = \<lparr> d_addr = 0x600000, d_len = 13, d_flags = 0, d_next = 0 \<rparr>
         \<and> mem_read (net_mem s') 0x600000 13 = [0, 0, 0, 0, 0, 0, 0, 0, 0, 0, 0xAA, 0xBB, 0xCC]
         \<and> vq_avail_idx (tx_queue s') = 1
         \<and> tx_idx s' = 1)
   \<and> length [0xAA, 0xBB, 0xCC :: u8] + 10 \<le> 2048
   \<and> (\<exists>s'. virtio_send_all vio_ready (replicate 17 [0xAA, 0xBB, 0xCC]) = Inr (replicate 17 0, s')
         \<and> tx_idx s' = 1 \<and> vq_avail_idx (tx_queue s') = 17)"
proof -
  have h: "unat (3 :: u16) + 10 \<le> 2048" "unat (3 :: u16) \<le> length [0xAA, 0xBB, 0xCC :: u8]"
    by simp_all
  note t = virtio_net_send_publishes [OF vio_ready_ok(1) h vio_ready_ok(2,4)]
  from t [THEN conjunct1]
  obtain s' where s': "virtio_net_send vio_ready [0xAA, 0xBB, 0xCC] 3 = Inr (0, s')"
    and r: "vq_avail_ring (tx_queue s') ! 0 = 0"
    and d: "vq_desc (tx_queue s') ! 0 = \<lparr> d_addr = 0x600000, d_len = 13, d_flags = 0, d_next = 0 \<rparr>"
    and m1: "mem_read (net_mem s') 0x600000 10 = replicate 10 0"
    and m2: "mem_read (net_mem s') (0x600000 + 10) 3 = [0xAA, 0xBB, 0xCC]"
    and a: "vq_avail_idx (tx_queue s') = 1" and i: "tx_idx s' = 1"
    by (auto simp: Let_def vio_ready_def vio_queue16_def vio_slot_addr_def)
  have "mem_read (net_mem s') 0x600000 13 = mem_read (net_mem s') 0x600000 10 @ mem_read (net_mem s') (0x600000 + 10) 3"
    by (simp add: mem_read_def upt_rec)
  with m1 m2 have m: "mem_read (net_mem s') 0x600000 13 = [0, 0, 0, 0, 0, 0, 0, 0, 0, 0, 0xAA, 0xBB, 0xCC]"
    by (simp add: numeral_eq_Suc)
  have p: "\<forall>p \<in> set (replicate 17 [0xAA, 0xBB, 0xCC :: u8]). length p + 10 \<le> 2048" by simp
  from t [THEN conjunct2, THEN spec, THEN mp, OF p]
  obtain s'' where "virtio_send_all vio_ready (replicate 17 [0xAA, 0xBB, 0xCC]) = Inr (replicate 17 0, s'')"
    "tx_idx s'' = 1" "vq_avail_idx (tx_queue s'') = 17"
    by (auto simp: vio_ready_def vio_queue16_def)
  then show ?thesis
    using vio_ready_ok h s' r d m a i by auto
qed

text \<open>
  Claim C8.  With the driver initialised: when \<open>last_used_idx\<close> equals \<open>used.idx\<close> the
  call returns 0, copies nothing and leaves the state as it was.  When a used-ring entry
  is consumed whose length is at most the 10 bytes of the header, the call returns 0 and
  copies nothing, \<open>last_used_idx\<close> has advanced by one, the slot named by the entry is
  published again (descriptor with the slot buffer's address, 2048 bytes, device-writable;
  ring entry; \<open>avail.idx\<close> plus one), and the doorbell (value 0) is written after
  these stores.
\<close>

theorem virtio_net_receive_nothing:
  assumes init: "virtio_initialized s \<noteq> 0"
  shows "(vq_last_used_idx (rx_queue s) = vq_used_idx (rx_queue s) \<longrightarrow>
            virtio_net_receive s max_len = Inr (0, [], s))
       \<and> (let q = rx_queue s;
               e = vq_used_ring q ! (unat (vq_last_used_idx q) mod unat (vq_size q));
               id = unat (fst e);
               slot = unat (vq_avail_idx q) mod unat (vq_size q);
               d = \<lparr> d_addr = vq_buffers q ! id, d_len = 2048, d_flags = VIRTQ_DESC_F_WRITE, d_next = 0 \<rparr>
           in vq_last_used_idx q \<noteq> vq_used_idx q \<and> virtq_ok q \<and> snd e \<le> 10 \<and> id < unat (vq_size q) \<longrightarrow>
              virtio_net_receive s max_len =
                Inr (0, [],
                  s\<lparr> rx_queue := q\<lparr> vq_last_used_idx := vq_last_used_idx q + 1,
                                     vq_desc := (vq_desc q)[id := d],
                                     vq_avail_ring := (vq_avail_ring q)[slot := of_nat id],
                                     vq_avail_idx := vq_avail_idx q + 1 \<rparr>,
                     vio_log := vio_log s @
                       [Ev_desc_write id d, Ev_avail_ring slot (of_nat id),
                        Ev_avail_idx (vq_avail_idx q + 1), Ev_outw (io_base s + 0x10) 0] \<rparr>))"
proof (intro conjI impI)
  assume "vq_last_used_idx (rx_queue s) = vq_used_idx (rx_queue s)"
  with init show "virtio_net_receive s max_len = Inr (0, [], s)"
    by (simp add: virtio_net_receive_def)
next
  let ?q = "rx_queue s"
  let ?e = "vq_used_ring ?q ! (unat (vq_last_used_idx ?q) mod unat (vq_size ?q))"
  let ?id = "unat (fst ?e)"
  let ?slot = "unat (vq_avail_idx ?q) mod unat (vq_size ?q)"
  let ?d = "\<lparr> d_addr = vq_buffers ?q ! ?id, d_len = 2048, d_flags = VIRTQ_DESC_F_WRITE, d_next = 0 \<rparr>"
  have main: "virtio_net_receive s max_len =
                Inr (0, [],
                  s\<lparr> rx_queue := ?q\<lparr> vq_last_used_idx := vq_last_used_idx ?q + 1,
                                     vq_desc := (vq_desc ?q)[?id := ?d],
                                     vq_avail_ring := (vq_avail_ring ?q)[?slot := of_nat ?id],
                                     vq_avail_idx := vq_avail_idx ?q + 1 \<rparr>,
                     vio_log := vio_log s @
                       [Ev_desc_write ?id ?d, Ev_avail_ring ?slot (of_nat ?id),
                        Ev_avail_idx (vq_avail_idx ?q + 1), Ev_outw (io_base s + 0x10) 0] \<rparr>)"
    if ne: "vq_last_used_idx ?q \<noteq> vq_used_idx ?q" and ok: "virtq_ok ?q"
      and short: "snd ?e \<le> 10" and inb: "?id < unat (vq_size ?q)"
  proof -
    have sz: "vq_size ?q \<noteq> 0" "0 < unat (vq_size ?q)"
      using ok by (simp_all add: virtq_ok_def unat_gt_0)
    have u: "unat (vq_last_used_idx ?q) mod unat (vq_size ?q) < length (vq_used_ring ?q)"
      using ok sz by (simp add: virtq_ok_def)
    have sl: "?slot < length (vq_avail_ring ?q)"
      using ok sz by (simp add: virtq_ok_def)
    have lens: "?id < length (vq_desc ?q)" "?id < length (vq_buffers ?q)"
      using ok inb by (simp_all add: virtq_ok_def)
    have nc: "\<not> snd ?e > of_nat VIRTIO_NET_HDR_SIZE"
      using short by (simp add: VIRTIO_NET_HDR_SIZE_val not_less)
    have add: "virtq_add_rx_buffer (?q\<lparr> vq_last_used_idx := vq_last_used_idx ?q + 1 \<rparr>) ?id =
        Inr (?q\<lparr> vq_last_used_idx := vq_last_used_idx ?q + 1,
                 vq_desc := (vq_desc ?q)[?id := ?d],
                 vq_avail_ring := (vq_avail_ring ?q)[?slot := of_nat ?id],
                 vq_avail_idx := vq_avail_idx ?q + 1 \<rparr>,
             [Ev_desc_write ?id ?d, Ev_avail_ring ?slot (of_nat ?id), Ev_avail_idx (vq_avail_idx ?q + 1)])"
      using sz sl lens by (simp add: virtq_add_rx_buffer_def Let_def NET_BUFFER_SIZE_def)
    show ?thesis
      using init ne sz u nc
      by (simp add: virtio_net_receive_def Let_def add VIRTIO_PCI_QUEUE_NOTIFY_def)
  qed
  then show "let q = rx_queue s;
               e = vq_used_ring q ! (unat (vq_last_used_idx q) mod unat (vq_size q));
               id = unat (fst e);
               slot = unat (vq_avail_idx q) mod unat (vq_size q);
               d = \<lparr> d_addr = vq_buffers q ! id, d_len = 2048, d_flags = VIRTQ_DESC_F_WRITE, d_next = 0 \<rparr>
           in vq_last_used_idx q \<noteq> vq_used_idx q \<and> virtq_ok q \<and> snd e \<le> 10 \<and> id < unat (vq_size q) \<longrightarrow>
              virtio_net_receive s max_len =
                Inr (0, [],
                  s\<lparr> rx_queue := q\<lparr> vq_last_used_idx := vq_last_used_idx q + 1,
                                     vq_desc := (vq_desc q)[id := d],
                                     vq_avail_ring := (vq_avail_ring q)[slot := of_nat id],
                                     vq_avail_idx := vq_avail_idx q + 1 \<rparr>,
                     vio_log := vio_log s @
                       [Ev_desc_write id d, Ev_avail_ring slot (of_nat id),
                        Ev_avail_idx (vq_avail_idx q + 1), Ev_outw (io_base s + 0x10) 0] \<rparr>)"
    unfolding Let_def by blast
qed

theorem virtio_net_receive_nothing_witness:
  "virtio_initialized vio_ready \<noteq> 0
   \<and> vq_last_used_idx (rx_queue vio_ready) = vq_used_idx (rx_queue vio_ready)
   \<and> virtio_net_receive vio_ready 1500 = Inr (0, [], vio_ready)
   \<and> virtio_initialized vio_short \<noteq> 0
   \<and> vq_last_used_idx (rx_queue vio_short) \<noteq> vq_used_idx (rx_queue vio_short)
   \<and> virtq_ok (rx_queue vio_short)
   \<and> vq_used_ring (rx_queue vio_short) ! 0 = (3, 10)
   \<and> (\<exists>s'. virtio_net_receive vio_short 1500 = Inr (0, [], s')
          \<and> vq_last_used_idx (rx_queue s') = 1
          \<and> vq_desc (rx_queue s') ! 3 = \<lparr> d_addr = 0x501800, d_len = 2048, d_flags = 2, d_next = 0 \<rparr>
          \<and> vq_avail_ring (rx_queue s') ! 0 = 3
          \<and> vq_avail_idx (rx_queue s') = 17
          \<and> vio_log s' = [Ev_desc_write 3 \<lparr> d_addr = 0x501800, d_len = 2048, d_flags = 2, d_next = 0 \<rparr>,
                           Ev_avail_ring 0 3, Ev_avail_idx 17, Ev_outw 0xC010 0])"
proof -
  have i: "virtio_initialized vio_short \<noteq> 0"
    by (simp add: vio_short_def vio_ready_def)
  have a: "virtio_net_receive vio_ready 1500 = Inr (0, [], vio_ready)"
    using virtio_net_receive_nothing [OF vio_ready_ok(1), of 1500]
    by (simp add: vio_ready_def vio_queue16_def)
  have ok: "virtq_ok (rx_queue vio_short)"
    by (simp add: vio_short_def vio_ready_def vio_queue16_def virtq_ok_def)
  have b: "\<exists>s'. virtio_net_receive vio_short 1500 = Inr (0, [], s')
          \<and> vq_last_used_idx (rx_queue s') = 1
          \<and> vq_desc (rx_queue s') ! 3 = \<lparr> d_addr = 0x501800, d_len = 2048, d_flags = 2, d_next = 0 \<rparr>
          \<and> vq_avail_ring (rx_queue s') ! 0 = 3
          \<and> vq_avail_idx (rx_queue s') = 17
          \<and> vio_log s' = [Ev_desc_write 3 \<lparr> d_addr = 0x501800, d_len = 2048, d_flags = 2, d_next = 0 \<rparr>,
                           Ev_avail_ring 0 3, Ev_avail_idx 17, Ev_outw 0xC010 0]"
    using virtio_net_receive_nothing [OF i, of 1500, THEN conjunct2] ok
    by (simp add: Let_def vio_short_def vio_ready_def vio_queue16_def vio_slot_addr_def
        VIRTQ_DESC_F_WRITE_def)
  show ?thesis
    using a b i ok vio_ready_ok(1)
    by (simp add: vio_short_def vio_ready_def vio_queue16_def)
qed

section \<open>PS/2 keyboard driver: proofs\<close>

lemma scancode_table_lengths:
  "length scancode_to_ascii = 128" "length scancode_to_ascii_shift = 128"
  by (simp_all add: scancode_to_ascii_def scancode_to_ascii_shift_def)

lemma kbd_flags_ok_init: "kbd_flags_ok keyboard_init"
  by (simp add: kbd_flags_ok_def keyboard_init_def)

lemma kbd_flags_ok_put: "kbd_flags_ok (kbd_buffer_put c s) = kbd_flags_ok s"
  by (simp add: kbd_flags_ok_def kbd_buffer_put_def Let_def)

lemma kbd_flags_ok_if_put: "kbd_flags_ok (if P then kbd_buffer_put c s else s) = kbd_flags_ok s"
  by (simp add: kbd_flags_ok_put)

lemma kbd_flags_ok_handler:
  assumes "kbd_flags_ok s"
  shows "kbd_flags_ok (keyboard_interrupt_handler b s)"
proof -
  let ?sc = "b AND 0x7F"
  have n: "c_not x \<in> {0, 1}" for x by (simp add: c_not_def)
  consider "?sc = SC_LSHIFT \<or> ?sc = SC_RSHIFT"
    | "\<not> (?sc = SC_LSHIFT \<or> ?sc = SC_RSHIFT)" "?sc = SC_CTRL"
    | "\<not> (?sc = SC_LSHIFT \<or> ?sc = SC_RSHIFT)" "?sc \<noteq> SC_CTRL" "?sc = SC_ALT"
    | "\<not> (?sc = SC_LSHIFT \<or> ?sc = SC_RSHIFT)" "?sc \<noteq> SC_CTRL" "?sc \<noteq> SC_ALT" "?sc = SC_CAPS"
    | "\<not> (?sc = SC_LSHIFT \<or> ?sc = SC_RSHIFT)" "?sc \<noteq> SC_CTRL" "?sc \<noteq> SC_ALT" "?sc \<noteq> SC_CAPS"
    by blast
  then show ?thesis
  proof cases
    case 1
    then show ?thesis
      using assms n by (simp add: keyboard_interrupt_handler_def kbd_flags_ok_def Let_def split del: if_split)
  next
    case 2
    then show ?thesis
      using assms n by (simp add: keyboard_interrupt_handler_def kbd_flags_ok_def Let_def split del: if_split)
  next
    case 3
    then show ?thesis
      using assms n by (simp add: keyboard_interrupt_handler_def kbd_flags_ok_def Let_def split del: if_split)
  next
    case 4
    then show ?thesis
      using assms n [of "caps_lock s"]
      by (cases "uint (b AND 0x80) = 0")
         (simp_all add: keyboard_interrupt_handler_def kbd_flags_ok_def split del: if_split)
  next
    case 5
    then show ?thesis
      using assms
      by (cases "uint (b AND 0x80) = 0")
         (simp_all add: keyboard_interrupt_handler_def Let_def kbd_flags_ok_if_put split del: if_split)
  qed
qed

lemmas kbd_sc_defs = SC_LSHIFT_def SC_RSHIFT_def SC_CTRL_def SC_ALT_def SC_CAPS_def

lemma kbd_shift_make:
  "keyboard_interrupt_handler 0x2A s = s\<lparr> shift_pressed := 1 \<rparr>"
  "keyboard_interrupt_handler 0x36 s = s\<lparr> shift_pressed := 1 \<rparr>"
  by (simp_all add: keyboard_interrupt_handler_def kbd_sc_defs c_not_def split del: if_split)

lemma kbd_shift_break:
  "keyboard_interrupt_handler 0xAA s = s\<lparr> shift_pressed := 0 \<rparr>"
  "keyboard_interrupt_handler 0xB6 s = s\<lparr> shift_pressed := 0 \<rparr>"
  by (simp_all add: keyboard_interrupt_handler_def kbd_sc_defs c_not_def split del: if_split)

lemma kbd_caps_make:
  "keyboard_interrupt_handler 0x3A s = s\<lparr> caps_lock := c_not (caps_lock s) \<rparr>"
  by (simp add: keyboard_interrupt_handler_def kbd_sc_defs split del: if_split)

lemma kbd_caps_break:
  "keyboard_interrupt_handler 0xBA s = s"
  by (simp add: keyboard_interrupt_handler_def kbd_sc_defs split del: if_split)

text \<open>
  Claim C9, as the code has it.  A shift make code followed by its break code leaves the
  state as it was except that the shift flag is 0 afterwards: nothing is enqueued, the
  other three flags keep their values, and the whole state is unchanged when the shift
  flag was 0 before.  Two caps-lock presses, with or without the releases in between,
  bring \<open>caps_lock\<close> (a flag holding 0 or 1) back to its value.
\<close>

theorem kbd_shift_caps_roundtrip:
  "(m \<in> {0x2A, 0x36} \<longrightarrow>
      kbd_deliver [m, m OR 0x80] s = s\<lparr> shift_pressed := 0 \<rparr>
    \<and> (shift_pressed s = 0 \<longrightarrow> kbd_deliver [m, m OR 0x80] s = s))
   \<and> (caps_lock s \<in> {0, 1} \<longrightarrow>
        kbd_deliver [0x3A, 0xBA, 0x3A, 0xBA] s = s \<and> kbd_deliver [0x3A, 0x3A] s = s)"
proof (intro conjI impI)
  assume m: "m \<in> {0x2A, 0x36}"
  then show e: "kbd_deliver [m, m OR 0x80] s = s\<lparr> shift_pressed := 0 \<rparr>"
    by (auto simp: kbd_shift_make kbd_shift_break)
  show "kbd_deliver [m, m OR 0x80] s = s" if "shift_pressed s = 0"
    using that e by simp
next
  assume c: "caps_lock s \<in> {0, 1}"
  then have "c_not (c_not (caps_lock s)) = caps_lock s" by (auto simp: c_not_def)
  then show "kbd_deliver [0x3A, 0xBA, 0x3A, 0xBA] s = s" "kbd_deliver [0x3A, 0x3A] s = s"
    by (simp_all add: kbd_caps_make kbd_caps_break)
qed

text \<open>
  With the left shift key held (flag 1), pressing and releasing the right shift key
  clears the flag: the flags are not all unchanged.
\<close>

theorem kbd_shift_roundtrip_counterexample:
  "kbd_deliver [0x36, 0xB6] (kbd_deliver [0x2A] keyboard_init) \<noteq> kbd_deliver [0x2A] keyboard_init
   \<and> shift_pressed (kbd_deliver [0x2A] keyboard_init) = 1
   \<and> shift_pressed (kbd_deliver [0x36, 0xB6] (kbd_deliver [0x2A] keyboard_init)) = 0"
proof -
  have 1: "shift_pressed (kbd_deliver [0x2A] keyboard_init) = 1"
    by (simp add: kbd_shift_make)
  have 2: "shift_pressed (kbd_deliver [0x36, 0xB6] (kbd_deliver [0x2A] keyboard_init)) = 0"
    by (simp add: kbd_shift_make kbd_shift_break)
  from 1 2 show ?thesis by (metis zero_neq_one)
qed

theorem kbd_shift_caps_roundtrip_witness:
  "(0x2A::u8) \<in> {0x2A, 0x36} \<and> shift_pressed keyboard_init = 0
   \<and> kbd_deliver [0x2A, 0xAA] keyboard_init = keyboard_init
   \<and> caps_lock keyboard_init \<in> {0, 1}
   \<and> kbd_deliver [0x3A, 0xBA, 0x3A, 0xBA] keyboard_init = keyboard_init"
  using kbd_shift_caps_roundtrip [of "0x2A" keyboard_init]
  by (simp add: keyboard_init_def)


end
